theory Spec2Isabelle
  imports Main "HOL-Library.Word"
begin

unbundle bit_operations_syntax

section \<open>RLP encoder (package rlp, encode side)\<close>

text \<open>
  Go's \<open>byte\<close> is an 8-bit word, \<open>uint64\<close> a 64-bit word; \<open>uint\<close> is taken as
  64 bits wide (a 64-bit platform), \<open>int\<close> as its two's complement reading.
\<close>

type_synonym byte = "8 word"
type_synonym uint64 = "64 word"

text \<open>
  Outcome of a Go call with an \<open>error\<close> result: a value, an error value, or a panic
  unwinding the stack.
\<close>

datatype error =
    Unsupported            \<comment> \<open>"Encode type %s not supported"\<close>
  | NegativeBigInt         \<comment> \<open>"Cannot encode negative *big.Int" (INVALID_VALUE)\<close>
  | ErrSize                \<comment> \<open>"rlp: non-canonical size information" (NON_CANONICAL_SIZE)\<close>
  | EOF                    \<comment> \<open>io.EOF from checkBounds (UNEXPECTED_END)\<close>
  | ListNotExpected        \<comment> \<open>"list not expected"\<close>
  | UintOverflow           \<comment> \<open>"uint overflow"\<close>
  | LeadingZero            \<comment> \<open>"leading zero bytes"\<close>
  | TypeErr                \<comment> \<open>"expected %s but found %s"\<close>
  | NotInList              \<comment> \<open>"it was not inside a list"\<close>
  | BadEnding              \<comment> \<open>"bad ending of the list"\<close>
  | Mismatch               \<comment> \<open>"result mismatch" of the decoding harness\<close>

datatype 'a result = Ok 'a | Err error | Panic

text \<open>
  \<open>putint\<close> writes the big-endian bytes of \<open>i\<close> into the buffer \<open>b\<close> and returns
  how many it wrote; the model returns the updated buffer with the count.
\<close>

definition putint :: "byte list \<Rightarrow> uint64 \<Rightarrow> byte list \<times> nat" where
  "putint b i =
    (if i < 2 ^ 8 then (b[0 := ucast i], 1)
     else if i < 2 ^ 16 then (b[0 := ucast (drop_bit 8 i), 1 := ucast i], 2)
     else if i < 2 ^ 24 then
       (b[0 := ucast (drop_bit 16 i), 1 := ucast (drop_bit 8 i), 2 := ucast i], 3)
     else if i < 2 ^ 32 then
       (b[0 := ucast (drop_bit 24 i), 1 := ucast (drop_bit 16 i),
          2 := ucast (drop_bit 8 i), 3 := ucast i], 4)
     else if i < 2 ^ 40 then
       (b[0 := ucast (drop_bit 32 i), 1 := ucast (drop_bit 24 i),
          2 := ucast (drop_bit 16 i), 3 := ucast (drop_bit 8 i), 4 := ucast i], 5)
     else if i < 2 ^ 48 then
       (b[0 := ucast (drop_bit 40 i), 1 := ucast (drop_bit 32 i),
          2 := ucast (drop_bit 24 i), 3 := ucast (drop_bit 16 i),
          4 := ucast (drop_bit 8 i), 5 := ucast i], 6)
     else if i < 2 ^ 56 then
       (b[0 := ucast (drop_bit 48 i), 1 := ucast (drop_bit 40 i),
          2 := ucast (drop_bit 32 i), 3 := ucast (drop_bit 24 i),
          4 := ucast (drop_bit 16 i), 5 := ucast (drop_bit 8 i), 6 := ucast i], 7)
     else
       (b[0 := ucast (drop_bit 56 i), 1 := ucast (drop_bit 48 i),
          2 := ucast (drop_bit 40 i), 3 := ucast (drop_bit 32 i),
          4 := ucast (drop_bit 24 i), 5 := ucast (drop_bit 16 i),
          6 := ucast (drop_bit 8 i), 7 := ucast i], 8))"

definition putUint32 :: "uint64 \<Rightarrow> byte list" where
  "putUint32 num = (let (buf, n) = putint (replicate 8 0) num in take n buf)"

text \<open>\<open>len(b)\<close> converted to \<open>uint\<close>, and to \<open>byte\<close> for the header.\<close>

definition encodeItem :: "byte list \<Rightarrow> byte list" where
  "encodeItem b =
    (if length b = 1 \<and> b ! 0 \<le> 0x7f then b
     else
       let size = (of_nat (length b) :: uint64) in
       if size < 56 then [0x80 + ucast size] @ b
       else
         let sizesize = putUint32 size in
         ([0xB7 + of_nat (length sizesize)] @ sizesize) @ b)"

definition encodeUint :: "uint64 \<Rightarrow> byte list" where
  "encodeUint i = (if i = 0 then [0x80] else encodeItem (putUint32 i))"

text \<open>
  The minimal-length big-endian representation of a natural number, as the
  specification words it: no byte for zero, most significant byte first.
\<close>

fun be_bytes :: "nat \<Rightarrow> byte list" where
  "be_bytes n = (if n = 0 then [] else be_bytes (n div 256) @ [of_nat (n mod 256)])"

declare be_bytes.simps [simp del]

text \<open>The value a big-endian byte string denotes (\<open>big.Int.SetBytes\<close>).\<close>

definition be_val :: "byte list \<Rightarrow> nat" where
  "be_val bs = foldl (\<lambda>acc b. acc * 256 + unat b) 0 bs"

text \<open>The \<open>k\<close> low-order base-256 digits of \<open>n\<close>, most significant first.\<close>

definition be_fixed :: "nat \<Rightarrow> nat \<Rightarrow> byte list" where
  "be_fixed k n = map (\<lambda>j. of_nat (n div 256 ^ j)) (rev [0..<k])"

text \<open>
  The values \<open>encode\<close> meets through reflection. Pointers and interface values are
  unwrapped by \<open>v.Elem()\<close>, so a value stands for itself behind any interface;
  \<open>VPtr\<close> is a pointer to anything but a \<open>big.Int\<close>, \<open>VOther\<close> a kind the switch
  does not list (a bool, a signed integer, a map). The fields of a \<open>VStruct\<close> are
  exported fields.
\<close>

datatype val =
    VUint uint64
  | VBigInt int
  | VBytes "byte list"
  | VString "byte list"
  | VSlice "val list"
  | VStruct "val list"
  | VPtr val
  | VOther

text \<open>\<open>big.Int.Bytes\<close>: the absolute value as a big-endian byte slice.\<close>

definition encodeBigInt :: "int \<Rightarrow> byte list result" where
  "encodeBigInt i =
    (if i < 0 then Err NegativeBigInt else Ok (encodeItem (be_bytes (nat \<bar>i\<bar>))))"

definition encodeString :: "byte list \<Rightarrow> byte list" where
  "encodeString b = encodeItem b"

text \<open>
  \<open>encodeList\<close> encodes the elements in order, appending to \<open>data\<close>; an element's
  error is raised with \<open>panic(err)\<close>. The variable \<open>BigInt\<close> holds
  \<open>reflect.Ptr\<close>, so its case takes every pointer before \<open>case reflect.Ptr\<close>, and the
  type assertion to \<open>*big.Int\<close> panics on any other pointer.
\<close>

fun encode :: "val \<Rightarrow> byte list result"
  and encodeList :: "val list \<Rightarrow> byte list result"
  and encodeElems :: "val list \<Rightarrow> byte list \<Rightarrow> byte list result" where
  "encode (VBytes b) = Ok (encodeItem b)"
| "encode (VSlice vs) = encodeList vs"
| "encode (VStruct vs) = encodeList vs"
| "encode (VString b) = Ok (encodeString b)"
| "encode (VBigInt i) = encodeBigInt i"
| "encode (VPtr v) = Panic"
| "encode (VUint i) = Ok (encodeUint i)"
| "encode VOther = Err Unsupported"
| "encodeList vs =
    (if vs = [] then Ok [0xC0]
     else case encodeElems vs [] of
       Ok dat \<Rightarrow>
         let size = (of_nat (length dat) :: uint64) in
         if size < 56 then Ok ([0xC0 + ucast size] @ dat)
         else
           let sizesize = putUint32 size in
           Ok (([0xF7 + of_nat (length sizesize)] @ sizesize) @ dat)
     | Err e \<Rightarrow> Err e
     | Panic \<Rightarrow> Panic)"
| "encodeElems [] dat = Ok dat"
| "encodeElems (i # rest) dat =
    (case encode i of
       Ok j \<Rightarrow> encodeElems rest (dat @ j)
     | Err e \<Rightarrow> Panic
     | Panic \<Rightarrow> Panic)"

definition EncodeToRLP :: "val \<Rightarrow> byte list result" where
  "EncodeToRLP v = encode v"

section \<open>RLP decoder (package rlp, type \<open>RLP\<close>)\<close>

datatype Kind = NoKind | KByte | KBytes | KList

text \<open>
  The reader's fields, prefixed with \<open>r_\<close>. \<open>NoKind\<close> is the zero \<open>Kind\<close>: no
  header is cached.
\<close>

record RLP =
  r_data :: "byte list"
  r_pos :: uint64
  r_kind :: Kind
  r_size :: uint64
  r_lists :: "uint64 list"
  r_uintbuf :: "byte list"
  r_len :: uint64

definition NewRLP :: "byte list \<Rightarrow> RLP" where
  "NewRLP dat =
    \<lparr>r_data = dat, r_pos = 0, r_kind = NoKind, r_size = 0, r_lists = [],
     r_uintbuf = replicate 8 0, r_len = of_nat (length dat)\<rparr>"

definition RLP_checkBounds :: "RLP \<Rightarrow> uint64 \<Rightarrow> error option" where
  "RLP_checkBounds r sz =
    (let e = (if r_lists r \<noteq> [] then hd (r_lists r) else r_len r)
     in if sz > e then Some EOF else None)"

text \<open>Indexing \<open>r.data[r.pos]\<close> at or beyond \<open>len(r.data)\<close> panics.\<close>

definition RLP_readByte :: "RLP \<Rightarrow> byte result \<times> RLP" where
  "RLP_readByte r =
    (case RLP_checkBounds r (r_pos r) of
       Some e \<Rightarrow> (Err e, r)
     | None \<Rightarrow>
         if unat (r_pos r) < length (r_data r)
         then (Ok (r_data r ! unat (r_pos r)), r\<lparr>r_pos := r_pos r + 1\<rparr>)
         else (Panic, r))"

text \<open>\<open>binary.BigEndian.Uint64\<close> of the 8-byte buffer.\<close>

definition BigEndian_Uint64 :: "byte list \<Rightarrow> uint64" where
  "BigEndian_Uint64 b = of_nat (be_val (take 8 b))"

text \<open>
  \<open>readUint\<close>, default case: \<open>start := int(8 - size)\<close> is the two's complement
  reading of the wrapped difference; the loop zeroes \<open>uintbuf[0:start]\<close> (and indexes
  out of range when \<open>start > 8\<close>); slicing \<open>uintbuf[start:]\<close> with a negative start
  or \<open>data[pos:pos+size]\<close> beyond the data panics. The slice's capacity is taken to be
  its length.
\<close>

definition RLP_readUint :: "RLP \<Rightarrow> uint64 \<Rightarrow> uint64 result \<times> RLP" where
  "RLP_readUint r sz =
    (if sz = 0 then (Ok 0, r)
     else if sz = 1 then
       (case RLP_readByte r of
          (Ok b, r') \<Rightarrow> (Ok (ucast b), r')
        | (Err e, r') \<Rightarrow> (Err e, r')
        | (Panic, r') \<Rightarrow> (Panic, r'))
     else
       let start = sint (8 - sz) in
       if 8 < start then (Panic, r)
       else
         let r1 = r\<lparr>r_uintbuf := replicate (nat start) 0 @ drop (nat start) (r_uintbuf r)\<rparr> in
         case RLP_checkBounds r1 (r_pos r1 + sz) of
           Some e \<Rightarrow> (Err e, r1)
         | None \<Rightarrow>
             if start < 0 \<or> length (r_data r1) < unat (r_pos r1) + unat sz then (Panic, r1)
             else
               let r2 = r1\<lparr>r_uintbuf := take (nat start) (r_uintbuf r1) @
                              take (unat sz) (drop (unat (r_pos r1)) (r_data r1)),
                            r_pos := r_pos r1 + sz\<rparr>
               in (Ok (BigEndian_Uint64 (r_uintbuf r2)), r2))"

text \<open>
  \<open>readKind\<close>. \<open>readUint\<close> returns 0 beside every error, so the long-string
  branch, which returns \<open>nil\<close> in place of \<open>err\<close>, yields size 0 when the read
  failed and the size read otherwise, whatever \<open>err\<close> was set to.
\<close>

definition RLP_readKind :: "RLP \<Rightarrow> (Kind \<times> uint64) result \<times> RLP" where
  "RLP_readKind r =
    (case RLP_readByte r of
       (Err e, r') \<Rightarrow> (Err e, r')
     | (Panic, r') \<Rightarrow> (Panic, r')
     | (Ok cur, r') \<Rightarrow>
         if cur < 0x80 then (Ok (KByte, ucast cur), r')
         else if cur < 0xB8 then (Ok (KBytes, ucast (cur - 0x80)), r')
         else if cur < 0xC0 then
           (case RLP_readUint r' (ucast (cur - 0xB7)) of
              (Ok sz, r'') \<Rightarrow> (Ok (KBytes, sz), r'')
            | (Err e, r'') \<Rightarrow> (Ok (KBytes, 0), r'')
            | (Panic, r'') \<Rightarrow> (Panic, r''))
         else if cur < 0xF8 then (Ok (KList, ucast (cur - 0xC0)), r')
         else
           (case RLP_readUint r' (ucast (cur - 0xF7)) of
              (Ok sz, r'') \<Rightarrow> if sz < 56 then (Err ErrSize, r'') else (Ok (KList, sz), r'')
            | (Err e, r'') \<Rightarrow> (Err e, r'')
            | (Panic, r'') \<Rightarrow> (Panic, r'')))"

definition RLP_Kind :: "RLP \<Rightarrow> (Kind \<times> uint64) result \<times> RLP" where
  "RLP_Kind r =
    (if r_kind r \<noteq> NoKind then (Ok (r_kind r, r_size r), r)
     else case RLP_readKind r of
       (Ok (k, sz), r') \<Rightarrow> (Ok (k, sz), r'\<lparr>r_kind := k, r_size := sz\<rparr>)
     | (Err e, r') \<Rightarrow> (Err e, r')
     | (Panic, r') \<Rightarrow> (Panic, r'))"

text \<open>
  \<open>Bytes\<close>: \<open>make([]byte, size)\<close> and the slice \<open>r.data[r.pos:r.pos+size]\<close>
  panic when the payload does not lie within the data.
\<close>

definition RLP_Bytes :: "RLP \<Rightarrow> byte list result \<times> RLP" where
  "RLP_Bytes r =
    (case RLP_Kind r of
       (Err e, r') \<Rightarrow> (Err e, r')
     | (Panic, r') \<Rightarrow> (Panic, r')
     | (Ok (k, sz), r') \<Rightarrow>
         if k = KList then (Err ListNotExpected, r')
         else if k = KByte then (Ok [ucast sz], r'\<lparr>r_kind := NoKind\<rparr>)
         else
           case RLP_checkBounds r' (r_pos r' + sz) of
             Some e \<Rightarrow> (Err e, r')
           | None \<Rightarrow>
               if length (r_data r') < unat (r_pos r') + unat sz then (Panic, r')
               else (Ok (take (unat sz) (drop (unat (r_pos r')) (r_data r'))),
                     r'\<lparr>r_pos := r_pos r' + sz, r_kind := NoKind\<rparr>))"

definition RLP_String :: "RLP \<Rightarrow> byte list result \<times> RLP" where
  "RLP_String r = RLP_Bytes r"

definition RLP_uint :: "RLP \<Rightarrow> nat \<Rightarrow> uint64 result \<times> RLP" where
  "RLP_uint r maxbits =
    (case RLP_Bytes r of
       (Err e, r') \<Rightarrow> (Err e, r')
     | (Panic, r') \<Rightarrow> (Panic, r')
     | (Ok b, r') \<Rightarrow>
         let size = (of_nat (length b) :: uint64) in
         if size = 1 then (Ok (ucast (b ! 0)), r')
         else if size > of_nat (maxbits div 8) then (Err UintOverflow, r')
         else RLP_readUint (r'\<lparr>r_pos := r_pos r' - size\<rparr>) size)"

definition RLP_Uint :: "RLP \<Rightarrow> uint64 result \<times> RLP" where
  "RLP_Uint r = RLP_uint r 64"

definition RLP_BigInt :: "RLP \<Rightarrow> int result \<times> RLP" where
  "RLP_BigInt r =
    (case RLP_Bytes r of
       (Err e, r') \<Rightarrow> (Err e, r')
     | (Panic, r') \<Rightarrow> (Panic, r')
     | (Ok b, r') \<Rightarrow>
         if length b > 0 \<and> b ! 0 = 0 then (Err LeadingZero, r')
         else (Ok (int (be_val b)), r'))"

definition RLP_List :: "RLP \<Rightarrow> uint64 result \<times> RLP" where
  "RLP_List r =
    (case RLP_Kind r of
       (Err e, r') \<Rightarrow> (Err e, r')
     | (Panic, r') \<Rightarrow> (Panic, r')
     | (Ok (k, sz), r') \<Rightarrow>
         if k \<noteq> KList then (Err TypeErr, r')
         else (Ok sz, r'\<lparr>r_kind := NoKind, r_lists := (r_pos r' + sz) # r_lists r'\<rparr>))"

definition RLP_EndList :: "RLP \<Rightarrow> unit result \<times> RLP" where
  "RLP_EndList r =
    (if r_lists r = [] then (Err NotInList, r)
     else
       let v = hd (r_lists r) in
       if v \<noteq> r_pos r then (Err BadEnding, r)
       else (Ok (), r\<lparr>r_lists := tl (r_lists r)\<rparr>))"

section \<open>The decoding harness (package tests, \<open>validateDecoding\<close>)\<close>

text \<open>
  \<open>validateDecoding\<close> reads a value of the shape of \<open>v\<close> from the reader and compares
  it with \<open>v\<close>: \<open>Uint\<close> for a \<open>uint64\<close>, \<open>BigInt\<close> for a \<open>*big.Int\<close>, \<open>Bytes\<close>
  for a \<open>[]byte\<close>, \<open>String\<close> for a string, and \<open>List\<close>, the elements in order,
  \<open>EndList\<close> for a \<open>[]interface{}\<close>. Any other type panics. The harness wraps a
  reader's error in a message; the model keeps the reader's error. In the harness a
  \<open>VUint\<close> is a \<open>uint64\<close> and a \<open>VSlice\<close> a \<open>[]interface{}\<close>.
\<close>

fun validateDecoding :: "RLP \<Rightarrow> val \<Rightarrow> unit result \<times> RLP"
  and validateElems :: "RLP \<Rightarrow> val list \<Rightarrow> unit result \<times> RLP" where
  "validateDecoding r (VUint obj) =
    (case RLP_Uint r of
       (Ok i, r') \<Rightarrow> if i \<noteq> obj then (Err Mismatch, r') else (Ok (), r')
     | (Err e, r') \<Rightarrow> (Err e, r')
     | (Panic, r') \<Rightarrow> (Panic, r'))"
| "validateDecoding r (VBigInt obj) =
    (case RLP_BigInt r of
       (Ok i, r') \<Rightarrow> if i \<noteq> obj then (Err Mismatch, r') else (Ok (), r')
     | (Err e, r') \<Rightarrow> (Err e, r')
     | (Panic, r') \<Rightarrow> (Panic, r'))"
| "validateDecoding r (VBytes obj) =
    (case RLP_Bytes r of
       (Ok b, r') \<Rightarrow> if b \<noteq> obj then (Err Mismatch, r') else (Ok (), r')
     | (Err e, r') \<Rightarrow> (Err e, r')
     | (Panic, r') \<Rightarrow> (Panic, r'))"
| "validateDecoding r (VString obj) =
    (case RLP_String r of
       (Ok b, r') \<Rightarrow> if b \<noteq> obj then (Err Mismatch, r') else (Ok (), r')
     | (Err e, r') \<Rightarrow> (Err e, r')
     | (Panic, r') \<Rightarrow> (Panic, r'))"
| "validateDecoding r (VSlice obj) =
    (case RLP_List r of
       (Ok n, r') \<Rightarrow>
         (case validateElems r' obj of
            (Ok u, r'') \<Rightarrow> RLP_EndList r''
          | (Err e, r'') \<Rightarrow> (Err e, r'')
          | (Panic, r'') \<Rightarrow> (Panic, r''))
     | (Err e, r') \<Rightarrow> (Err e, r')
     | (Panic, r') \<Rightarrow> (Panic, r'))"
| "validateDecoding r (VStruct obj) = (Panic, r)"
| "validateDecoding r (VPtr v) = (Panic, r)"
| "validateDecoding r VOther = (Panic, r)"
| "validateElems r [] = (Ok (), r)"
| "validateElems r (v # vs) =
    (case validateDecoding r v of
       (Ok u, r') \<Rightarrow> validateElems r' vs
     | (Err e, r') \<Rightarrow> (Err e, r')
     | (Panic, r') \<Rightarrow> (Panic, r'))"

text \<open>
  The value universe of the codec: unsigned integers, non-negative arbitrary-precision
  integers, byte strings, strings, and lists of these.
\<close>

fun recognized :: "val \<Rightarrow> bool" where
  "recognized (VUint i) = True"
| "recognized (VBigInt i) = (0 \<le> i)"
| "recognized (VBytes b) = True"
| "recognized (VString b) = True"
| "recognized (VSlice vs) = list_all recognized vs"
| "recognized (VStruct vs) = False"
| "recognized (VPtr v) = False"
| "recognized VOther = False"

section \<open>Peer selection and peer onboarding (package syncer)\<close>

text \<open>
  Go's \<open>int\<close> counters are modelled as \<open>int\<close>: the counts of failures and pending
  requests stay far from the 64-bit range.
\<close>

record Peer =
  peer_id :: string
  active :: bool
  failed :: int
  pending :: int

record Config =
  MaxRequests :: int
  NumWorkers :: int

definition DefaultConfig :: Config where
  "DefaultConfig = \<lparr>MaxRequests = 5, NumWorkers = 2\<rparr>"

definition newPeer :: "string \<Rightarrow> Peer" where
  "newPeer i = \<lparr>peer_id = i, active = True, failed = 0, pending = 0\<rparr>"

text \<open>\<open>peers.Less\<close> and \<open>peers.Swap\<close> on the slice \<open>p\<close>.\<close>

definition peers_Less :: "Peer list \<Rightarrow> nat \<Rightarrow> nat \<Rightarrow> bool" where
  "peers_Less p i j =
    (if failed (p ! i) < failed (p ! j) then True
     else pending (p ! i) < pending (p ! j))"

definition peers_Swap :: "Peer list \<Rightarrow> nat \<Rightarrow> nat \<Rightarrow> Peer list" where
  "peers_Swap p i j = p[i := p ! j, j := p ! i]"

text \<open>
  \<open>sort.Sort\<close> of the standard library on a short slice is an insertion sort driven
  by \<open>Less\<close> and \<open>Swap\<close> (for up to 6 elements in every release):
  \<^verbatim>\<open>for i := a + 1; i < b; i++ { for j := i; j > a && data.Less(j, j-1); j-- { data.Swap(j, j-1) } }\<close>
  The model is this insertion sort and is exact for slices of at most 6 elements; the
  library sorts longer slices with further passes that are not modelled.
\<close>

fun sift_down :: "Peer list \<Rightarrow> nat \<Rightarrow> Peer list" where
  "sift_down p 0 = p"
| "sift_down p (Suc j) =
    (if peers_Less p (Suc j) j then sift_down (peers_Swap p (Suc j) j) j else p)"

definition sort_Sort :: "Peer list \<Rightarrow> Peer list" where
  "sort_Sort p = fold (\<lambda>i q. sift_down q i) [1..<length p] p"

text \<open>
  One pass of \<open>dequeuePeer\<close> from the label \<open>SELECT\<close>. The argument \<open>ps\<close> lists the
  peers in the order in which \<open>range s.peers\<close> visits the map. The result is the
  candidate, its \<open>pending\<close> incremented, or \<open>None\<close> when no peer qualifies and the
  worker parks on a wait channel.
\<close>

definition dequeuePeer :: "Config \<Rightarrow> Peer list \<Rightarrow> Peer option" where
  "dequeuePeer config ps =
    (let pp = sort_Sort (filter (\<lambda>i. active i \<and> pending i \<le> MaxRequests config - 1) ps)
     in if length pp > 0
        then Some ((pp ! 0)\<lparr>pending := pending (pp ! 0) + 1\<rparr>)
        else None)"

text \<open>The order the specification words: ascending by the pair (failures, pending).\<close>

definition lex_less :: "Peer \<Rightarrow> Peer \<Rightarrow> bool" where
  "lex_less p q = (failed p < failed q \<or> (failed p = failed q \<and> pending p < pending q))"

text \<open>
  The syncer's state as \<open>AddNode\<close> touches it: the peers, the block number of
  \<open>queue.back\<close> (the download target; \<open>None\<close> for \<open>nil\<close>), the number of parked
  wait channels, and the lines printed about the difficulty.
\<close>

record Syncer =
  s_peers :: "string \<rightharpoonup> Peer"
  s_back :: "uint64 option"
  s_waitCh :: nat
  s_printed :: "string list"

text \<open>
  Modelled from the spec: \<open>queue.addBack\<close> is absent from src/ (the queue's file is
  not there); it advances the target tip, the block of \<open>queue.back\<close>, to \<open>block\<close>.
\<close>

definition addBack :: "Syncer \<Rightarrow> uint64 \<Rightarrow> Syncer" where
  "addBack s block = s\<lparr>s_back := Some block\<rparr>"

definition updateChain :: "Syncer \<Rightarrow> uint64 \<Rightarrow> Syncer" where
  "updateChain s block =
    (case s_back s of
       None \<Rightarrow> addBack s block
     | Some b \<Rightarrow> if block > b then addBack s block else s)"

definition wakeUp :: "Syncer \<Rightarrow> Syncer" where
  "wakeUp s = (if s_waitCh s > 0 then s\<lparr>s_waitCh := s_waitCh s - 1\<rparr> else s)"

text \<open>\<open>checkDAOHardFork\<close> returns \<open>nil\<close> on its first line.\<close>

definition checkDAOHardFork :: "error option" where
  "checkDAOHardFork = None"

text \<open>
  \<open>AddNode\<close>. The peer's answers are arguments: \<open>height\<close> is the result of
  \<open>fetchHeight\<close> (an error, or the number of the peer's head header),
  \<open>headerDiff\<close> is \<open>peer.HeaderDiff()\<close>, \<open>ours\<close> is
  \<open>s.blockchain.Header().Difficulty\<close>. The comparison guards a \<open>Printf\<close> only.
\<close>

definition AddNode :: "Syncer \<Rightarrow> string \<Rightarrow> error + uint64 \<Rightarrow> int \<Rightarrow> int \<Rightarrow> Syncer" where
  "AddNode s pid height headerDiff ours =
    (case checkDAOHardFork of
       Some e \<Rightarrow> s
     | None \<Rightarrow>
         let s1 = s\<lparr>s_peers := (s_peers s)(pid \<mapsto> newPeer pid)\<rparr> in
         case height of
           Inl e \<Rightarrow> s1
         | Inr number \<Rightarrow>
             let s2 = (if headerDiff < ours
                       then s1\<lparr>s_printed := s_printed s1 @ [''Difficulty is lower than ours, skip it'']\<rparr>
                       else s1);
                 s3 = s2\<lparr>s_printed := s_printed s2 @ [''Difficulty higher than ours'']\<rparr>
             in wakeUp (updateChain s3 number))"

section \<open>Header store\<close>

text \<open>
  Modelled from the spec: the header store (package blockchain, with
  \<open>WriteGenesis\<close>, \<open>WriteHeader\<close>, \<open>Header\<close> and \<open>GetForks\<close>) is absent from
  src/, which holds its test only. The definitions follow section 4.2 of the
  specification. A header is \<open>(hash, parent, number, difficulty)\<close>, a hash a natural
  number as in the specification's scenarios.
\<close>

record header =
  h_hash :: nat
  h_parent :: nat
  h_number :: nat
  h_difficulty :: nat

datatype store_error = ALREADY_INITIALIZED | PARENT_MISSING | DUPLICATE | GENESIS_MISSING

text \<open>
  The store: every header by hash (newest first), the total difficulty recorded for each
  hash, the canonical head, the fork tips in the order they arose, and the
  canonical-number index.
\<close>

record store =
  st_headers :: "(nat \<times> header) list"
  st_td :: "(nat \<times> nat) list"
  st_head :: "nat option"
  st_forks :: "nat list"
  st_canon :: "(nat \<times> nat) list"

definition empty_store :: store where
  "empty_store = \<lparr>st_headers = [], st_td = [], st_head = None, st_forks = [], st_canon = []\<rparr>"

definition td_of :: "store \<Rightarrow> nat \<Rightarrow> nat" where
  "td_of s h = (case map_of (st_td s) h of Some t \<Rightarrow> t | None \<Rightarrow> 0)"

definition head_td :: "store \<Rightarrow> nat" where
  "head_td s = (case st_head s of Some h \<Rightarrow> td_of s h | None \<Rightarrow> 0)"

definition write_genesis :: "store \<Rightarrow> header \<Rightarrow> store_error + store" where
  "write_genesis s h =
    (if st_headers s \<noteq> [] then Inl ALREADY_INITIALIZED
     else Inr \<lparr>st_headers = [(h_hash h, h)], st_td = [(h_hash h, h_difficulty h)],
               st_head = Some (h_hash h), st_forks = [],
               st_canon = [(h_number h, h_hash h)]\<rparr>)"

text \<open>
  The hashes from \<open>x\<close> back towards the genesis, following parents; the walk stops at
  a header of number 0, at a missing header, and after as many steps as there are headers.
\<close>

fun path_from :: "(nat \<times> header) list \<Rightarrow> nat \<Rightarrow> nat \<Rightarrow> nat list" where
  "path_from hs 0 x = []"
| "path_from hs (Suc fuel) x =
    (case map_of hs x of
       None \<Rightarrow> []
     | Some h \<Rightarrow> if h_number h = 0 then [x] else x # path_from hs fuel (h_parent h))"

definition ancestry :: "store \<Rightarrow> nat \<Rightarrow> nat list" where
  "ancestry s x = path_from (st_headers s) (length (st_headers s)) x"

text \<open>
  The reorg on adopting the new head \<open>n\<close> with previous head \<open>p\<close>: the headers on
  \<open>p\<close>'s side of the common ancestor leave the canonical index, those on \<open>n\<close>'s side
  enter it; \<open>p\<close> joins the fork set unless it is an ancestor of another fork tip; fork
  tips that are ancestors of \<open>n\<close> leave the fork set.
\<close>

definition reorg :: "store \<Rightarrow> nat \<Rightarrow> nat \<Rightarrow> store" where
  "reorg s p n =
    (let pn = ancestry s n;
         pp = ancestry s p;
         new_side = takeWhile (\<lambda>x. x \<notin> set pp) pn;
         old_side = takeWhile (\<lambda>x. x \<notin> set pn) pp;
         number_of = (\<lambda>x. case map_of (st_headers s) x of Some h \<Rightarrow> h_number h | None \<Rightarrow> 0);
         canon1 = filter (\<lambda>(k, x). x \<notin> set old_side \<and> k \<notin> set (map number_of new_side))
                    (st_canon s);
         canon2 = map (\<lambda>x. (number_of x, x)) new_side @ canon1;
         dominated = list_ex (\<lambda>t. t \<noteq> p \<and> p \<in> set (ancestry s t)) (st_forks s);
         forks1 = (if dominated then st_forks s else st_forks s @ [p]);
         forks2 = filter (\<lambda>t. t \<notin> set pn) forks1
     in s\<lparr>st_head := Some n, st_forks := forks2, st_canon := canon2\<rparr>)"

text \<open>
  A header that does not become the head replaces its parent in the fork set when the
  parent is a fork tip, and is a new fork tip otherwise.
\<close>

definition add_fork :: "store \<Rightarrow> header \<Rightarrow> store" where
  "add_fork s h =
    (if h_parent h \<in> set (st_forks s)
     then s\<lparr>st_forks := map (\<lambda>t. if t = h_parent h then h_hash h else t) (st_forks s)\<rparr>
     else s\<lparr>st_forks := st_forks s @ [h_hash h]\<rparr>)"

definition write_header :: "store \<Rightarrow> header \<Rightarrow> store_error + store" where
  "write_header s h =
    (case st_head s of
       None \<Rightarrow> Inl GENESIS_MISSING
     | Some p \<Rightarrow>
         if map_of (st_headers s) (h_parent h) = None then Inl PARENT_MISSING
         else if map_of (st_headers s) (h_hash h) \<noteq> None then Inl DUPLICATE
         else
           let t = td_of s (h_parent h) + h_difficulty h;
               s1 = s\<lparr>st_headers := (h_hash h, h) # st_headers s,
                      st_td := (h_hash h, t) # st_td s\<rparr>
           in if t > td_of s p then Inr (reorg s1 p (h_hash h))
              else Inr (add_fork s1 h))"

definition header_hd :: "store \<Rightarrow> header option" where
  "header_hd s = (case st_head s of None \<Rightarrow> None | Some h \<Rightarrow> map_of (st_headers s) h)"

definition forks :: "store \<Rightarrow> nat list" where
  "forks s = st_forks s"

text \<open>A write that fails leaves the store as it was.\<close>

datatype store_op = WriteGenesis header | WriteHeader header

definition apply_op :: "store \<Rightarrow> store_op \<Rightarrow> store" where
  "apply_op s op =
    (case op of
       WriteGenesis h \<Rightarrow> (case write_genesis s h of Inl e \<Rightarrow> s | Inr s' \<Rightarrow> s')
     | WriteHeader h \<Rightarrow> (case write_header s h of Inl e \<Rightarrow> s | Inr s' \<Rightarrow> s'))"

definition run_ops :: "store_op list \<Rightarrow> store" where
  "run_ops ops = foldl apply_op empty_store ops"

text \<open>Writing a list of headers in order, stopping at the first failure.\<close>

fun write_all :: "store \<Rightarrow> header list \<Rightarrow> store_error + store" where
  "write_all s [] = Inr s"
| "write_all s (h # hs) =
    (case write_header s h of Inl e \<Rightarrow> Inl e | Inr s' \<Rightarrow> write_all s' hs)"


section \<open>Reader positions\<close>

text \<open>
  The end that \<open>checkBounds\<close> compares with: the innermost open list's end, or the
  length of the data.
\<close>

definition bound :: "RLP \<Rightarrow> uint64" where
  "bound r = (if r_lists r \<noteq> [] then hd (r_lists r) else r_len r)"

text \<open>The bytes \<open>bs\<close> stand in \<open>dat\<close> from index \<open>P\<close> on.\<close>

definition holds_at :: "byte list \<Rightarrow> nat \<Rightarrow> byte list \<Rightarrow> bool" where
  "holds_at dat P bs = (P + length bs \<le> length dat \<and> take (length bs) (drop P dat) = bs)"

text \<open>
  The reader stands at index \<open>P\<close> before the bytes \<open>bs\<close>, with no header cached,
  and \<open>bs\<close> ends within the data and within the innermost open list.
\<close>

definition ready :: "RLP \<Rightarrow> nat \<Rightarrow> byte list \<Rightarrow> bool" where
  "ready r P bs =
    (r_pos r = of_nat P \<and> r_kind r = NoKind \<and> holds_at (r_data r) P bs \<and>
     length (r_data r) < 2 ^ 64 \<and> P + length bs \<le> unat (bound r))"

text \<open>
  The reader \<open>r'\<close> is \<open>r\<close> moved to index \<open>Q\<close>: same data, same open lists, no
  header cached.
\<close>

definition moved :: "RLP \<Rightarrow> nat \<Rightarrow> RLP \<Rightarrow> bool" where
  "moved r Q r' =
    (r_data r' = r_data r \<and> r_pos r' = of_nat Q \<and> r_kind r' = NoKind \<and>
     r_lists r' = r_lists r \<and> r_len r' = r_len r)"

text \<open>The reader \<open>r'\<close> is \<open>r\<close> at index \<open>Q\<close>, everything else but the integer buffer kept.\<close>

definition same_but :: "RLP \<Rightarrow> nat \<Rightarrow> RLP \<Rightarrow> bool" where
  "same_but r Q r' =
    (r_data r' = r_data r \<and> r_pos r' = of_nat Q \<and> r_kind r' = r_kind r \<and>
     r_size r' = r_size r \<and> r_lists r' = r_lists r \<and> r_len r' = r_len r)"

text \<open>The reader \<open>r'\<close> is \<open>r\<close> at index \<open>Q\<close> with the header \<open>(K, m)\<close> cached.\<close>

definition cached :: "RLP \<Rightarrow> nat \<Rightarrow> Kind \<Rightarrow> uint64 \<Rightarrow> RLP \<Rightarrow> bool" where
  "cached r Q K m r' =
    (r_data r' = r_data r \<and> r_pos r' = of_nat Q \<and> r_kind r' = K \<and> r_size r' = m \<and>
     r_lists r' = r_lists r \<and> r_len r' = r_len r)"

text \<open>The header \<open>encodeList\<close> puts before a payload of \<open>n\<close> bytes.\<close>

definition list_header :: "nat \<Rightarrow> byte list" where
  "list_header n =
    (if n < 56 then [0xC0 + of_nat n]
     else (0xF7 + of_nat (length (putUint32 (of_nat n)))) # putUint32 (of_nat n))"

text \<open>
  The total difficulty of a header as the specification defines it from the headers'
  own difficulties (I3): the difficulty of the genesis for the genesis, and the total
  difficulty of the parent plus the header's difficulty otherwise. The headers are listed
  newest first, the genesis last, and a header's parent is looked up among the headers
  written before it.
\<close>

fun total_difficulty :: "(nat \<times> header) list \<Rightarrow> nat \<Rightarrow> nat" where
  "total_difficulty [] x = 0"
| "total_difficulty ((k, h) # hs) x =
    (if x = k
     then (if hs = [] then h_difficulty h
           else total_difficulty hs (h_parent h) + h_difficulty h)
     else total_difficulty hs x)"

definition head_total :: "store \<Rightarrow> nat" where
  "head_total s =
    (case st_head s of Some h \<Rightarrow> total_difficulty (st_headers s) h | None \<Rightarrow> 0)"

text \<open>
  The headers are linked: no hash is stored twice, and every header but the oldest has
  its parent among the headers stored before it.
\<close>

fun linked :: "(nat \<times> header) list \<Rightarrow> bool" where
  "linked [] = True"
| "linked ((k, h) # hs) =
    (k \<notin> fst ` set hs \<and> (hs = [] \<or> h_parent h \<in> fst ` set hs) \<and> linked hs)"

text \<open>
  The store is consistent: its headers are linked, and the total difficulty it records
  for a hash is the total difficulty of that header.
\<close>

definition consistent :: "store \<Rightarrow> bool" where
  "consistent s =
    (linked (st_headers s) \<and> (\<forall>x. td_of s x = total_difficulty (st_headers s) x))"

text \<open>
  The head is the largest by the recorded numbers: no header is present and there is no
  head, or the head is a stored header and no stored header has a larger recorded total
  difficulty.
\<close>

definition recorded_max :: "store \<Rightarrow> bool" where
  "recorded_max s =
    (case st_head s of
       None \<Rightarrow> st_headers s = []
     | Some hh \<Rightarrow>
         hh \<in> fst ` set (st_headers s) \<and>
         (\<forall>x \<in> fst ` set (st_headers s). td_of s x \<le> td_of s hh))"

text \<open>
  The head is heaviest: no header is present and there is no head, or the head is a stored
  header and no stored header has a larger total difficulty, the total difficulty being
  the sum of the difficulties from the genesis to the header.
\<close>

definition heaviest :: "store \<Rightarrow> bool" where
  "heaviest s =
    (case st_head s of
       None \<Rightarrow> st_headers s = []
     | Some hh \<Rightarrow>
         hh \<in> fst ` set (st_headers s) \<and>
         (\<forall>x \<in> fst ` set (st_headers s).
            total_difficulty (st_headers s) x \<le> total_difficulty (st_headers s) hh))"

section \<open>Big-endian byte strings\<close>

lemma be_bytes_0: "be_bytes 0 = []"
  by (simp add: be_bytes.simps [of 0])

lemma be_step: "0 < n \<Longrightarrow> be_bytes n = be_bytes (n div 256) @ [of_nat n]"
  apply (subst be_bytes.simps)
  apply (simp add: word_of_nat_eq_iff take_bit_eq_mod)
  done

lemma be_fixed_0: "be_fixed 0 n = []"
  by (simp add: be_fixed_def)

lemma be_fixed_Suc: "be_fixed (Suc k) n = be_fixed k (n div 256) @ [of_nat n]"
proof -
  have "[0..<Suc k] = 0 # map Suc [0..<k]"
    by (simp add: upt_conv_Cons map_Suc_upt del: upt_Suc)
  then have "rev [0..<Suc k] = rev (map Suc [0..<k]) @ [0]"
    by (simp del: upt_Suc)
  then show ?thesis
    by (simp add: be_fixed_def rev_map div_mult2_eq del: upt_Suc)
qed

lemma be_bytes_fixed:
  "n < 256 ^ k \<Longrightarrow> (0 < k \<Longrightarrow> 256 ^ (k - 1) \<le> n) \<Longrightarrow> be_bytes n = be_fixed k n"
proof (induction k arbitrary: n)
  case 0
  then show ?case by (simp add: be_bytes_0 be_fixed_def)
next
  case (Suc k)
  from Suc.prems have pos: "0 < n" and lo: "256 ^ k \<le> n" and hi: "n < 256 * 256 ^ k"
    by (auto intro: Suc_leI less_le_trans [of 0 "256 ^ k" n])
  have "n div 256 < 256 ^ k"
    using hi by (simp add: less_mult_imp_div_less mult.commute)
  moreover have "256 ^ (k - 1) \<le> n div 256" if "0 < k"
  proof -
    from that obtain j where "k = Suc j" by (cases k) auto
    with lo show ?thesis by (simp add: less_eq_div_iff_mult_less_eq mult.commute)
  qed
  ultimately have "be_bytes (n div 256) = be_fixed k (n div 256)"
    by (rule Suc.IH)
  with pos show ?case
    by (simp add: be_step be_fixed_Suc)
qed

lemma be_fixed_explicit:
  "be_fixed (Suc 0) n = [of_nat n]"
  "be_fixed (Suc (Suc 0)) n = [of_nat (n div 2 ^ 8), of_nat n]"
  "be_fixed (Suc (Suc (Suc 0))) n = [of_nat (n div 2 ^ 16), of_nat (n div 2 ^ 8), of_nat n]"
  "be_fixed (Suc (Suc (Suc (Suc 0)))) n =
     [of_nat (n div 2 ^ 24), of_nat (n div 2 ^ 16), of_nat (n div 2 ^ 8), of_nat n]"
  "be_fixed (Suc (Suc (Suc (Suc (Suc 0))))) n =
     [of_nat (n div 2 ^ 32), of_nat (n div 2 ^ 24), of_nat (n div 2 ^ 16),
      of_nat (n div 2 ^ 8), of_nat n]"
  "be_fixed (Suc (Suc (Suc (Suc (Suc (Suc 0)))))) n =
     [of_nat (n div 2 ^ 40), of_nat (n div 2 ^ 32), of_nat (n div 2 ^ 24),
      of_nat (n div 2 ^ 16), of_nat (n div 2 ^ 8), of_nat n]"
  "be_fixed (Suc (Suc (Suc (Suc (Suc (Suc (Suc 0))))))) n =
     [of_nat (n div 2 ^ 48), of_nat (n div 2 ^ 40), of_nat (n div 2 ^ 32),
      of_nat (n div 2 ^ 24), of_nat (n div 2 ^ 16), of_nat (n div 2 ^ 8), of_nat n]"
  "be_fixed (Suc (Suc (Suc (Suc (Suc (Suc (Suc (Suc 0)))))))) n =
     [of_nat (n div 2 ^ 56), of_nat (n div 2 ^ 48), of_nat (n div 2 ^ 40),
      of_nat (n div 2 ^ 32), of_nat (n div 2 ^ 24), of_nat (n div 2 ^ 16),
      of_nat (n div 2 ^ 8), of_nat n]"
  by (simp_all add: be_fixed_Suc be_fixed_0 div_mult2_eq [symmetric])

lemma length_be_fixed: "length (be_fixed k n) = k"
  by (simp add: be_fixed_def)

lemma be_bytes_nonempty: "0 < n \<Longrightarrow> be_bytes n \<noteq> []"
  by (simp add: be_step)

lemma hd_be_bytes: "0 < n \<Longrightarrow> hd (be_bytes n) \<noteq> 0"
proof (induction n rule: less_induct)
  case (less n)
  show ?case
  proof (cases "n < 256")
    case True
    with less.prems have "be_bytes n = [of_nat n]"
      by (simp add: be_step be_bytes_0)
    moreover from True less.prems have "(of_nat n :: byte) \<noteq> 0"
      by (simp add: word_of_nat_eq_0_iff dvd_def) presburger
    ultimately show ?thesis by simp
  next
    case False
    then have "0 < n div 256" and "n div 256 < n"
      by (simp_all add: div_greater_zero_iff)
    then have "hd (be_bytes (n div 256)) \<noteq> 0" and "be_bytes (n div 256) \<noteq> []"
      by (simp_all add: less.IH be_bytes_nonempty)
    with less.prems show ?thesis
      by (simp add: be_step)
  qed
qed

lemma be_val_snoc: "be_val (bs @ [b]) = be_val bs * 256 + unat b"
  by (simp add: be_val_def)

lemma be_val_be_bytes: "be_val (be_bytes n) = n"
proof (induction n rule: less_induct)
  case (less n)
  show ?case
  proof (cases "n = 0")
    case True
    then show ?thesis by (simp add: be_bytes_0 be_val_def)
  next
    case False
    then have "be_val (be_bytes (n div 256)) = n div 256"
      by (intro less.IH) simp
    moreover have "unat (of_nat n :: byte) = n mod 256"
      by (simp add: unat_of_nat)
    ultimately show ?thesis
      using False by (simp add: be_step be_val_snoc)
  qed
qed

section \<open>The encoder on unsigned integers\<close>

lemma ucast_low: "(ucast (i::uint64) :: byte) = of_nat (unat i)"
  by simp

lemma ucast_drop: "(ucast (drop_bit k (i::uint64)) :: byte) = of_nat (unat i div 2 ^ k)"
  using ucast_low [of "drop_bit k i"]
  by (simp only: unat_drop_bit_eq drop_bit_nat_def)

lemma putUint32_explicit:
  "putUint32 i =
    (if i < 2 ^ 8 then [ucast i]
     else if i < 2 ^ 16 then [ucast (drop_bit 8 i), ucast i]
     else if i < 2 ^ 24 then [ucast (drop_bit 16 i), ucast (drop_bit 8 i), ucast i]
     else if i < 2 ^ 32 then
       [ucast (drop_bit 24 i), ucast (drop_bit 16 i), ucast (drop_bit 8 i), ucast i]
     else if i < 2 ^ 40 then
       [ucast (drop_bit 32 i), ucast (drop_bit 24 i), ucast (drop_bit 16 i),
        ucast (drop_bit 8 i), ucast i]
     else if i < 2 ^ 48 then
       [ucast (drop_bit 40 i), ucast (drop_bit 32 i), ucast (drop_bit 24 i),
        ucast (drop_bit 16 i), ucast (drop_bit 8 i), ucast i]
     else if i < 2 ^ 56 then
       [ucast (drop_bit 48 i), ucast (drop_bit 40 i), ucast (drop_bit 32 i),
        ucast (drop_bit 24 i), ucast (drop_bit 16 i), ucast (drop_bit 8 i), ucast i]
     else
       [ucast (drop_bit 56 i), ucast (drop_bit 48 i), ucast (drop_bit 40 i),
        ucast (drop_bit 32 i), ucast (drop_bit 24 i), ucast (drop_bit 16 i),
        ucast (drop_bit 8 i), ucast i])"
  unfolding putUint32_def putint_def
  by (simp add: numeral_eq_Suc del: power_numeral)

lemma putUint32_be: "i \<noteq> 0 \<Longrightarrow> putUint32 i = be_bytes (unat i)"
proof -
  assume nz: "i \<noteq> 0"
  let ?n = "unat i"
  from nz have pos: "0 < ?n" by (simp add: unat_gt_0)
  have top: "?n < 256 ^ 8" using unsigned_less [of i, where ?'a = nat] by simp
  consider (1) "?n < 2 ^ 8"
    | (2) "2 ^ 8 \<le> ?n" "?n < 2 ^ 16"
    | (3) "2 ^ 16 \<le> ?n" "?n < 2 ^ 24"
    | (4) "2 ^ 24 \<le> ?n" "?n < 2 ^ 32"
    | (5) "2 ^ 32 \<le> ?n" "?n < 2 ^ 40"
    | (6) "2 ^ 40 \<le> ?n" "?n < 2 ^ 48"
    | (7) "2 ^ 48 \<le> ?n" "?n < 2 ^ 56"
    | (8) "2 ^ 56 \<le> ?n"
    by linarith
  then show ?thesis
  proof cases
    case 1
    with pos have "be_bytes ?n = be_fixed (Suc 0) ?n"
      by (intro be_bytes_fixed) simp_all
    with 1 show ?thesis
      by (simp add: putUint32_explicit word_less_nat_alt be_fixed_explicit)
  next
    case 2
    then have "be_bytes ?n = be_fixed (Suc (Suc 0)) ?n"
      by (intro be_bytes_fixed) simp_all
    with 2 show ?thesis
      by (simp add: putUint32_explicit word_less_nat_alt be_fixed_explicit ucast_drop)
  next
    case 3
    then have "be_bytes ?n = be_fixed (Suc (Suc (Suc 0))) ?n"
      by (intro be_bytes_fixed) simp_all
    with 3 show ?thesis
      by (simp add: putUint32_explicit word_less_nat_alt be_fixed_explicit ucast_drop)
  next
    case 4
    then have "be_bytes ?n = be_fixed (Suc (Suc (Suc (Suc 0)))) ?n"
      by (intro be_bytes_fixed) simp_all
    with 4 show ?thesis
      by (simp add: putUint32_explicit word_less_nat_alt be_fixed_explicit ucast_drop)
  next
    case 5
    then have "be_bytes ?n = be_fixed (Suc (Suc (Suc (Suc (Suc 0))))) ?n"
      by (intro be_bytes_fixed) simp_all
    with 5 show ?thesis
      by (simp add: putUint32_explicit word_less_nat_alt be_fixed_explicit ucast_drop)
  next
    case 6
    then have "be_bytes ?n = be_fixed (Suc (Suc (Suc (Suc (Suc (Suc 0)))))) ?n"
      by (intro be_bytes_fixed) simp_all
    with 6 show ?thesis
      by (simp add: putUint32_explicit word_less_nat_alt be_fixed_explicit ucast_drop)
  next
    case 7
    then have "be_bytes ?n = be_fixed (Suc (Suc (Suc (Suc (Suc (Suc (Suc 0))))))) ?n"
      by (intro be_bytes_fixed) simp_all
    with 7 show ?thesis
      by (simp add: putUint32_explicit word_less_nat_alt be_fixed_explicit ucast_drop)
  next
    case 8
    with top have "be_bytes ?n = be_fixed (Suc (Suc (Suc (Suc (Suc (Suc (Suc (Suc 0)))))))) ?n"
      by (intro be_bytes_fixed) simp_all
    with 8 show ?thesis
      by (simp add: putUint32_explicit word_less_nat_alt be_fixed_explicit ucast_drop)
  qed
qed

lemma length_putUint32: "1 \<le> length (putUint32 i) \<and> length (putUint32 i) \<le> 8"
  by (simp add: putUint32_explicit)

lemma ucast_le_7f: "i < 2 ^ 8 \<Longrightarrow> ((ucast (i::uint64) :: byte) \<le> 0x7f) = (i \<le> 0x7f)"
  by (simp add: word_le_nat_alt word_less_nat_alt unsigned_ucast_eq take_bit_eq_mod)

lemma putUint32_single: "(length (putUint32 i) = 1 \<and> putUint32 i ! 0 \<le> 0x7f) = (i \<le> 0x7f)"
proof (cases "i < 2 ^ 8")
  case True
  then show ?thesis
    using ucast_le_7f [of i] by (simp add: putUint32_explicit)
next
  case False
  then have "\<not> i \<le> 0x7f"
    by (simp add: word_le_nat_alt word_less_nat_alt)
  with False show ?thesis
    by (simp add: putUint32_explicit)
qed

lemma of_nat_length_putUint32: "(of_nat (length (putUint32 i)) :: uint64) < 56"
  using length_putUint32 [of i]
  by (simp add: word_less_nat_alt unat_of_nat)

lemma encodeUint_explicit:
  "i \<noteq> 0 \<Longrightarrow> encodeUint i =
     (if i \<le> 0x7f then [ucast i] else (0x80 + of_nat (length (putUint32 i))) # putUint32 i)"
  using putUint32_single [of i] of_nat_length_putUint32 [of i]
  apply (simp add: encodeUint_def encodeItem_def Let_def del: One_nat_def)
  apply (auto simp: putUint32_explicit word_le_nat_alt word_less_nat_alt)
  done

text \<open>
  C9. \<open>EncodeToRLP\<close> of the unsigned integer zero is the single byte \<open>0x80\<close>. Every
  non-zero unsigned integer \<open>i\<close> encodes as the byte-string encoding (\<open>encodeItem\<close>) of
  its minimal-length big-endian representation \<open>be_bytes (unat i)\<close>: that
  representation has no leading zero byte, denotes \<open>i\<close>, and has at most 8 bytes; a value
  in \<open>[0x01, 0x7f]\<close> encodes as itself, any other as the header \<open>0x80 + length\<close>
  followed by the bytes.
\<close>

theorem encodeUint_minimal_big_endian:
  "EncodeToRLP (VUint 0) = Ok [0x80] \<and>
   (i \<noteq> 0 \<longrightarrow>
      EncodeToRLP (VUint i) = Ok (encodeItem (be_bytes (unat i))) \<and>
      encodeItem (be_bytes (unat i)) =
        (if i \<le> 0x7f then [ucast i]
         else (0x80 + of_nat (length (be_bytes (unat i)))) # be_bytes (unat i)) \<and>
      hd (be_bytes (unat i)) \<noteq> 0 \<and>
      be_val (be_bytes (unat i)) = unat i \<and>
      length (be_bytes (unat i)) \<le> 8)"
proof (intro conjI impI)
  show "EncodeToRLP (VUint 0) = Ok [0x80]"
    by (simp add: EncodeToRLP_def encodeUint_def)
next
  assume nz: "i \<noteq> 0"
  then have be: "putUint32 i = be_bytes (unat i)"
    by (rule putUint32_be)
  from nz show "EncodeToRLP (VUint i) = Ok (encodeItem (be_bytes (unat i)))"
    by (simp add: EncodeToRLP_def encodeUint_def be)
  from nz have "encodeUint i = encodeItem (be_bytes (unat i))"
    by (simp add: encodeUint_def be)
  with encodeUint_explicit [OF nz]
  show "encodeItem (be_bytes (unat i)) =
        (if i \<le> 0x7f then [ucast i]
         else (0x80 + of_nat (length (be_bytes (unat i)))) # be_bytes (unat i))"
    by (simp add: be)
  from nz show "hd (be_bytes (unat i)) \<noteq> 0"
    by (simp add: hd_be_bytes unat_gt_0)
  show "be_val (be_bytes (unat i)) = unat i"
    by (rule be_val_be_bytes)
  from length_putUint32 [of i] show "length (be_bytes (unat i)) \<le> 8"
    by (simp add: be)
qed

theorem encodeUint_minimal_big_endian_witness:
  "(0x0400 :: uint64) \<noteq> 0 \<and>
   EncodeToRLP (VUint 0x0400) = Ok (encodeItem (be_bytes (unat (0x0400 :: uint64)))) \<and>
   encodeItem (be_bytes (unat (0x0400 :: uint64))) =
     (0x80 + of_nat (length (be_bytes (unat (0x0400 :: uint64))))) #
       be_bytes (unat (0x0400 :: uint64)) \<and>
   hd (be_bytes (unat (0x0400 :: uint64))) \<noteq> 0"
  using encodeUint_minimal_big_endian [of "0x0400"] by simp

section \<open>The decoder at the inputs the specification names\<close>

text \<open>
  C4. The input \<open>0xB8 0x01 0x05\<close> carries a one-byte payload behind a long-form
  header. \<open>Bytes\<close> returns the payload: the long-string branch of \<open>readKind\<close>
  sets \<open>err = ErrSize\<close> and then returns \<open>nil\<close>.
\<close>

theorem Bytes_long_form_short_payload:
  "fst (RLP_Bytes (NewRLP [0xB8, 0x01, 0x05])) = Ok [0x05] \<and>
   fst (RLP_Bytes (NewRLP [0xB8, 0x01, 0x05])) \<noteq> Err ErrSize"
  by code_simp

text \<open>
  C5. \<open>Kind\<close> on the empty input: \<open>checkBounds(0)\<close> compares \<open>0 > 0\<close> and passes,
  and \<open>r.data[0]\<close> indexes an empty slice, a run-time panic and not an error value.
\<close>

theorem Kind_empty_input_panics:
  "fst (RLP_Kind (NewRLP [])) = Panic \<and> fst (RLP_Kind (NewRLP [])) \<noteq> Err EOF"
  by code_simp

text \<open>
  C6. On \<open>0x82 0x00 0x01\<close> the arbitrary-precision reader \<open>BigInt\<close> fails with
  "leading zero bytes", and the bounded reader \<open>Uint\<close> returns 1.
\<close>

theorem Uint_accepts_leading_zero:
  "fst (RLP_Uint (NewRLP [0x82, 0x00, 0x01])) = Ok 1 \<and>
   fst (RLP_BigInt (NewRLP [0x82, 0x00, 0x01])) = Err LeadingZero"
  by code_simp

section \<open>Negative integers in the encoder\<close>

text \<open>
  C10. A negative \<open>*big.Int\<close> at the top level returns the error; the same value as an
  element of a slice or a struct makes \<open>encodeList\<close> panic.
\<close>

theorem encode_nested_negative_panics:
  "EncodeToRLP (VBigInt (- 1)) = Err NegativeBigInt \<and>
   EncodeToRLP (VSlice [VBigInt (- 1)]) = Panic \<and>
   EncodeToRLP (VStruct [VUint 1, VBigInt (- 1)]) = Panic"
  by (simp add: EncodeToRLP_def encodeBigInt_def)

section \<open>Peer selection\<close>

text \<open>
  C7. Two active peers with free slots, \<open>b\<close> with (failures, pending) = (0, 1) and
  \<open>a\<close> with (1, 0), visited in the order \<open>b\<close>, \<open>a\<close>. In the specification's
  order \<open>b\<close> comes first. \<open>Less\<close> holds in both directions, it falls through to the
  pending counts whenever the failures are not smaller, and the selection step returns
  \<open>a\<close>.
\<close>

theorem dequeuePeer_not_lexicographic:
  "dequeuePeer DefaultConfig
     [\<lparr>peer_id = ''b'', active = True, failed = 0, pending = 1\<rparr>,
      \<lparr>peer_id = ''a'', active = True, failed = 1, pending = 0\<rparr>] =
     Some \<lparr>peer_id = ''a'', active = True, failed = 1, pending = 1\<rparr> \<and>
   lex_less \<lparr>peer_id = ''b'', active = True, failed = 0, pending = 1\<rparr>
            \<lparr>peer_id = ''a'', active = True, failed = 1, pending = 0\<rparr> \<and>
   peers_Less [\<lparr>peer_id = ''b'', active = True, failed = 0, pending = 1\<rparr>,
               \<lparr>peer_id = ''a'', active = True, failed = 1, pending = 0\<rparr>] 0 1 \<and>
   peers_Less [\<lparr>peer_id = ''b'', active = True, failed = 0, pending = 1\<rparr>,
               \<lparr>peer_id = ''a'', active = True, failed = 1, pending = 0\<rparr>] 1 0"
  by code_simp

section \<open>Peer onboarding\<close>

text \<open>
  C8. A peer whose difficulty (1) is below the local head's (10), or equal to it, still
  moves the download target to the peer's height 100: the comparison in \<open>AddNode\<close>
  prints "skip it" and falls through to \<open>updateChain\<close>.
\<close>

theorem AddNode_lower_difficulty_advances_target:
  "s_back (AddNode \<lparr>s_peers = Map.empty, s_back = Some 50, s_waitCh = 0, s_printed = []\<rparr>
             ''p'' (Inr 100) 1 10) = Some 100 \<and>
   s_back (AddNode \<lparr>s_peers = Map.empty, s_back = None, s_waitCh = 0, s_printed = []\<rparr>
             ''p'' (Inr 100) 10 10) = Some 100 \<and>
   s_printed (AddNode \<lparr>s_peers = Map.empty, s_back = Some 50, s_waitCh = 0, s_printed = []\<rparr>
             ''p'' (Inr 100) 1 10) =
     [''Difficulty is lower than ours, skip it'', ''Difficulty higher than ours'']"
  by (simp add: AddNode_def checkDAOHardFork_def updateChain_def addBack_def wakeUp_def)

section \<open>Header store: the head is the heaviest header\<close>

text \<open>
  C3. The reorg scenario: genesis \<open>(0x00, -, 0, 1)\<close>, then \<open>0x01\<close> to \<open>0x06\<close> as
  the specification lists them. Every write succeeds, the canonical head is \<open>0x05\<close>
  and the fork set is exactly \<open>{0x06}\<close>.
\<close>

theorem reorg_scenario:
  "(case write_genesis empty_store \<lparr>h_hash = 0, h_parent = 0, h_number = 0, h_difficulty = 1\<rparr> of
      Inl e \<Rightarrow> False
    | Inr s0 \<Rightarrow>
        (case write_all s0
           [\<lparr>h_hash = 1, h_parent = 0, h_number = 1, h_difficulty = 1\<rparr>,
            \<lparr>h_hash = 2, h_parent = 1, h_number = 2, h_difficulty = 1\<rparr>,
            \<lparr>h_hash = 3, h_parent = 2, h_number = 3, h_difficulty = 1\<rparr>,
            \<lparr>h_hash = 4, h_parent = 1, h_number = 2, h_difficulty = 10\<rparr>,
            \<lparr>h_hash = 5, h_parent = 4, h_number = 3, h_difficulty = 11\<rparr>,
            \<lparr>h_hash = 6, h_parent = 3, h_number = 4, h_difficulty = 1\<rparr>] of
           Inl e \<Rightarrow> False
         | Inr s \<Rightarrow> st_head s = Some 5 \<and> forks s = [6] \<and>
             header_hd s = Some \<lparr>h_hash = 5, h_parent = 4, h_number = 3, h_difficulty = 11\<rparr>))"
  by code_simp

lemma recorded_max_write_genesis: "write_genesis s h = Inr s' \<Longrightarrow> recorded_max s'"
  by (auto simp: write_genesis_def recorded_max_def td_of_def split: if_splits)

lemma map_of_None_notin: "map_of xs k = None \<Longrightarrow> k \<notin> fst ` set xs"
  by (simp add: map_of_eq_None_iff)

lemma recorded_max_write_header:
  assumes "recorded_max s" and "write_header s h = Inr s'"
  shows "recorded_max s'"
proof -
  from assms(2) obtain p where p: "st_head s = Some p"
    by (auto simp: write_header_def split: option.splits)
  from assms(2) p have fresh: "map_of (st_headers s) (h_hash h) = None"
    by (auto simp: write_header_def Let_def split: if_splits)
  then have notin: "h_hash h \<notin> fst ` set (st_headers s)"
    by (rule map_of_None_notin)
  from assms(1) p have pin: "p \<in> fst ` set (st_headers s)"
    and pmax: "\<forall>x \<in> fst ` set (st_headers s). td_of s x \<le> td_of s p"
    by (simp_all add: recorded_max_def)
  from pin notin have pne: "p \<noteq> h_hash h" by blast
  let ?t = "td_of s (h_parent h) + h_difficulty h"
  let ?s1 = "s\<lparr>st_headers := (h_hash h, h) # st_headers s, st_td := (h_hash h, ?t) # st_td s\<rparr>"
  have td1: "td_of ?s1 x = (if x = h_hash h then ?t else td_of s x)" for x
    by (simp add: td_of_def)
  show ?thesis
  proof (cases "?t > td_of s p")
    case True
    with assms(2) p fresh have s': "s' = reorg ?s1 p (h_hash h)"
      by (auto simp: write_header_def Let_def split: if_splits)
    have "td_of s' x = td_of ?s1 x" for x
      by (simp add: s' reorg_def td_of_def Let_def)
    moreover have "st_headers s' = st_headers ?s1" "st_head s' = Some (h_hash h)"
      by (simp_all add: s' reorg_def Let_def)
    ultimately show ?thesis
      using True pmax notin by (auto simp: recorded_max_def td1 intro: order_trans less_imp_le)
  next
    case False
    with assms(2) p fresh have s': "s' = add_fork ?s1 h"
      by (auto simp: write_header_def Let_def split: if_splits)
    have "td_of s' x = td_of ?s1 x" for x
      by (simp add: s' add_fork_def td_of_def)
    moreover have "st_headers s' = st_headers ?s1" "st_head s' = Some p"
      by (simp_all add: s' add_fork_def p)
    ultimately show ?thesis
      using False pmax pin pne by (auto simp: recorded_max_def td1)
  qed
qed


lemma recorded_max_apply_op: "recorded_max s \<Longrightarrow> recorded_max (apply_op s op)"
  by (cases op)
    (auto simp: apply_op_def split: sum.splits
      intro: recorded_max_write_genesis recorded_max_write_header)

lemma recorded_max_foldl: "recorded_max s \<Longrightarrow> recorded_max (foldl apply_op s ops)"
  by (induction ops arbitrary: s) (simp_all add: recorded_max_apply_op)

lemma recorded_max_run_ops: "recorded_max (run_ops ops)"
  unfolding run_ops_def
  by (rule recorded_max_foldl) (simp add: recorded_max_def empty_store_def)

lemma write_header_tie:
  assumes "recorded_max s" and "write_header s h = Inr s'"
    and "td_of s' (h_hash h) = head_td s"
  shows "st_head s' = st_head s \<and> h_hash h \<in> set (forks s') \<and>
         st_head s' \<noteq> Some (h_hash h) \<and> header_hd s' = header_hd s"
proof -
  from assms(2) obtain p where p: "st_head s = Some p"
    by (auto simp: write_header_def split: option.splits)
  from assms(2) p have fresh: "map_of (st_headers s) (h_hash h) = None"
    by (auto simp: write_header_def Let_def split: if_splits)
  then have notin: "h_hash h \<notin> fst ` set (st_headers s)"
    by (rule map_of_None_notin)
  from assms(1) p have pin: "p \<in> fst ` set (st_headers s)"
    by (simp add: recorded_max_def)
  from pin notin have pne: "p \<noteq> h_hash h" by blast
  let ?t = "td_of s (h_parent h) + h_difficulty h"
  let ?s1 = "s\<lparr>st_headers := (h_hash h, h) # st_headers s, st_td := (h_hash h, ?t) # st_td s\<rparr>"
  have not_heavier: "\<not> ?t > td_of s p"
  proof
    assume gt: "?t > td_of s p"
    with assms(2) p fresh have "s' = reorg ?s1 p (h_hash h)"
      by (auto simp: write_header_def Let_def split: if_splits)
    then have "td_of s' (h_hash h) = ?t"
      by (simp add: reorg_def td_of_def Let_def)
    with assms(3) gt p show False
      by (simp add: head_td_def)
  qed
  with assms(2) p fresh have s': "s' = add_fork ?s1 h"
    by (auto simp: write_header_def Let_def split: if_splits)
  have "st_head s' = Some p"
    by (simp add: s' add_fork_def p)
  moreover have "h_hash h \<in> set (forks s')"
    by (auto simp: s' add_fork_def forks_def)
  moreover have "header_hd s' = header_hd s"
    using pne by (simp add: s' add_fork_def header_hd_def p)
  ultimately show ?thesis
    using p pne by simp
qed

lemma map_of_Some_in: "map_of xs k = Some v \<Longrightarrow> k \<in> fst ` set xs"
  by (metis map_of_eq_None_iff option.distinct(1))

lemma map_of_not_None_in: "map_of xs k \<noteq> None \<Longrightarrow> k \<in> fst ` set xs"
  by (simp add: map_of_eq_None_iff)

lemma consistent_write_genesis: "write_genesis s h = Inr s' \<Longrightarrow> consistent s'"
  by (auto simp: write_genesis_def consistent_def td_of_def split: if_splits)

lemma consistent_write_header:
  assumes c: "consistent s" and m: "recorded_max s" and w: "write_header s h = Inr s'"
  shows "consistent s'"
proof -
  from w obtain p where p: "st_head s = Some p"
    by (auto simp: write_header_def split: option.splits)
  from w p have fresh: "map_of (st_headers s) (h_hash h) = None"
    and par: "map_of (st_headers s) (h_parent h) \<noteq> None"
    by (auto simp: write_header_def Let_def split: if_splits)
  from fresh have notin: "h_hash h \<notin> fst ` set (st_headers s)"
    by (rule map_of_None_notin)
  from par have pin: "h_parent h \<in> fst ` set (st_headers s)"
    by (rule map_of_not_None_in)
  then have ne: "st_headers s \<noteq> []"
    by auto
  let ?t = "td_of s (h_parent h) + h_difficulty h"
  let ?s1 = "s\<lparr>st_headers := (h_hash h, h) # st_headers s, st_td := (h_hash h, ?t) # st_td s\<rparr>"
  from w p fresh par have "s' = reorg ?s1 p (h_hash h) \<or> s' = add_fork ?s1 h"
    by (auto simp: write_header_def Let_def split: if_splits)
  then have hs: "st_headers s' = (h_hash h, h) # st_headers s"
    and td: "st_td s' = (h_hash h, ?t) # st_td s"
    by (auto simp: reorg_def add_fork_def Let_def)
  from c have l: "linked (st_headers s)"
    and a: "\<And>x. td_of s x = total_difficulty (st_headers s) x"
    by (simp_all add: consistent_def)
  have "linked (st_headers s')"
    unfolding hs using l notin pin by simp
  moreover have "td_of s' x = total_difficulty (st_headers s') x" for x
    unfolding hs using ne a [of x] a [of "h_parent h"]
    by (simp add: td_of_def td)
  ultimately show ?thesis
    by (simp add: consistent_def)
qed

lemma invariants_apply_op:
  "consistent s \<and> recorded_max s \<Longrightarrow> consistent (apply_op s op) \<and> recorded_max (apply_op s op)"
  by (cases op)
    (auto simp: apply_op_def split: sum.splits
      intro: recorded_max_write_genesis recorded_max_write_header
        consistent_write_genesis consistent_write_header)

lemma invariants_foldl:
  "consistent s \<and> recorded_max s \<Longrightarrow>
   consistent (foldl apply_op s ops) \<and> recorded_max (foldl apply_op s ops)"
proof (induction ops arbitrary: s)
  case Nil
  then show ?case by simp
next
  case (Cons op ops)
  from invariants_apply_op [OF Cons.prems] show ?case
    by (simp add: Cons.IH)
qed

lemma consistent_run_ops: "consistent (run_ops ops)"
proof -
  have "consistent empty_store \<and> recorded_max empty_store"
    by (simp add: consistent_def recorded_max_def empty_store_def td_of_def)
  from invariants_foldl [OF this] show ?thesis
    by (simp add: run_ops_def)
qed

lemma heaviest_if_recorded:
  "consistent s \<Longrightarrow> recorded_max s \<Longrightarrow> heaviest s"
  by (simp add: consistent_def recorded_max_def heaviest_def split: option.splits)

lemma head_total_recorded: "consistent s \<Longrightarrow> head_total s = head_td s"
  by (simp add: consistent_def head_total_def head_td_def split: option.splits)

lemma linked_parent_in:
  "linked hs \<Longrightarrow> map_of hs x = Some h \<Longrightarrow> x \<noteq> fst (last hs) \<Longrightarrow>
   h_parent h \<in> fst ` set hs"
proof (induction hs rule: linked.induct)
  case 1
  then show ?case by simp
next
  case (2 k h0 hs)
  show ?case
  proof (cases "x = k")
    case True
    with 2 show ?thesis
      by (cases "hs = []") auto
  next
    case False
    with 2 have "hs \<noteq> []"
      by auto
    with 2 False show ?thesis
      by auto
  qed
qed

lemma total_difficulty_I3:
  "linked hs \<Longrightarrow> map_of hs x = Some h \<Longrightarrow>
   total_difficulty hs x =
     (if x = fst (last hs) then h_difficulty h
      else total_difficulty hs (h_parent h) + h_difficulty h)"
proof (induction hs rule: linked.induct)
  case 1
  then show ?case by simp
next
  case (2 k h0 hs)
  show ?case
  proof (cases "hs = []")
    case True
    with 2 show ?thesis
      by (auto split: if_splits)
  next
    case ne: False
    from 2 have kn: "k \<notin> fst ` set hs" and lk: "linked hs"
      and pin: "h_parent h0 \<in> fst ` set hs"
      using ne by simp_all
    from ne have lastin: "fst (last hs) \<in> fst ` set hs"
      by simp
    show ?thesis
    proof (cases "x = k")
      case True
      with 2 have h: "h = h0" by simp
      from kn lastin have "k \<noteq> fst (last hs)" by metis
      moreover from kn pin have "h_parent h0 \<noteq> k" by metis
      ultimately show ?thesis
        using True ne h by simp
    next
      case False
      with 2 have mo: "map_of hs x = Some h" by simp
      note ih = "2.IH" [OF lk mo]
      show ?thesis
      proof (cases "x = fst (last hs)")
        case True
        with ih False ne show ?thesis by simp
      next
        case nl: False
        from linked_parent_in [OF lk mo nl] kn have "h_parent h \<noteq> k" by metis
        with ih False ne nl show ?thesis by simp
      qed
    qed
  qed
qed


text \<open>
  C2. After any sequence of \<open>write_genesis\<close> and \<open>write_header\<close> operations the
  canonical head is a stored header of maximum total difficulty, where the total
  difficulty of a header is the sum of the headers' difficulties from the genesis to it
  (the genesis has its own difficulty, any other header its parent's total plus its own
  difficulty), which is also the number the store records. When a header is then written
  whose total difficulty equals the head's, the head is retained and the new header is a
  fork tip, not the head.
\<close>

theorem head_is_heaviest_and_ties_keep_head:
  "heaviest (run_ops ops) \<and>
   (\<forall>x h. map_of (st_headers (run_ops ops)) x = Some h \<longrightarrow>
      total_difficulty (st_headers (run_ops ops)) x =
        (if x = fst (last (st_headers (run_ops ops))) then h_difficulty h
         else total_difficulty (st_headers (run_ops ops)) (h_parent h) + h_difficulty h)) \<and>
   (\<forall>x. td_of (run_ops ops) x = total_difficulty (st_headers (run_ops ops)) x) \<and>
   (\<forall>h s'. write_header (run_ops ops) h = Inr s' \<and>
            total_difficulty (st_headers s') (h_hash h) = head_total (run_ops ops) \<longrightarrow>
            st_head s' = st_head (run_ops ops) \<and>
            header_hd s' = header_hd (run_ops ops) \<and>
            h_hash h \<in> set (forks s') \<and>
            st_head s' \<noteq> Some (h_hash h))"
proof (intro conjI allI impI)
  note c = consistent_run_ops [of ops] and m = recorded_max_run_ops [of ops]
  from c m show "heaviest (run_ops ops)"
    by (rule heaviest_if_recorded)
  from c show "td_of (run_ops ops) x = total_difficulty (st_headers (run_ops ops)) x" for x
    by (simp add: consistent_def)
  from c have l: "linked (st_headers (run_ops ops))"
    by (simp add: consistent_def)
  show "total_difficulty (st_headers (run_ops ops)) x =
        (if x = fst (last (st_headers (run_ops ops))) then h_difficulty h
         else total_difficulty (st_headers (run_ops ops)) (h_parent h) + h_difficulty h)"
    if "map_of (st_headers (run_ops ops)) x = Some h" for x h
    using l that by (rule total_difficulty_I3)
  fix h s'
  assume a: "write_header (run_ops ops) h = Inr s' \<and>
             total_difficulty (st_headers s') (h_hash h) = head_total (run_ops ops)"
  then have w: "write_header (run_ops ops) h = Inr s'"
    and t: "total_difficulty (st_headers s') (h_hash h) = head_total (run_ops ops)"
    by simp_all
  from c m w have "consistent s'"
    by (rule consistent_write_header)
  then have "td_of s' (h_hash h) = total_difficulty (st_headers s') (h_hash h)"
    by (simp add: consistent_def)
  with t head_total_recorded [OF c] have tie: "td_of s' (h_hash h) = head_td (run_ops ops)"
    by simp
  note r = write_header_tie [OF m w tie]
  from r show "st_head s' = st_head (run_ops ops)" by blast
  from r show "header_hd s' = header_hd (run_ops ops)" by blast
  from r show "h_hash h \<in> set (forks s')" by blast
  from r show "st_head s' \<noteq> Some (h_hash h)" by blast
qed

theorem head_is_heaviest_and_ties_keep_head_witness:
  "(let s = run_ops
       [WriteGenesis \<lparr>h_hash = 0, h_parent = 0, h_number = 0, h_difficulty = 1\<rparr>,
        WriteHeader \<lparr>h_hash = 10, h_parent = 0, h_number = 1, h_difficulty = 100\<rparr>,
        WriteHeader \<lparr>h_hash = 11, h_parent = 0, h_number = 1, h_difficulty = 1\<rparr>,
        WriteHeader \<lparr>h_hash = 12, h_parent = 11, h_number = 2, h_difficulty = 1\<rparr>];
        h = \<lparr>h_hash = 13, h_parent = 0, h_number = 1, h_difficulty = 100\<rparr>
    in heaviest s \<and> st_head s = Some 10 \<and>
       total_difficulty (st_headers s) 10 = 101 \<and>
       total_difficulty (st_headers s) 12 = 3 \<and>
       td_of s 12 = 3 \<and>
       (\<exists>s'. write_header s h = Inr s' \<and>
             total_difficulty (st_headers s') (h_hash h) = head_total s \<and>
             st_head s' = Some 10 \<and> h_hash h \<in> set (forks s')))"
proof -
  let ?ops = "[WriteGenesis \<lparr>h_hash = 0, h_parent = 0, h_number = 0, h_difficulty = 1\<rparr>,
        WriteHeader \<lparr>h_hash = 10, h_parent = 0, h_number = 1, h_difficulty = 100\<rparr>,
        WriteHeader \<lparr>h_hash = 11, h_parent = 0, h_number = 1, h_difficulty = 1\<rparr>,
        WriteHeader \<lparr>h_hash = 12, h_parent = 11, h_number = 2, h_difficulty = 1\<rparr>]"
  let ?h = "\<lparr>h_hash = 13, h_parent = 0, h_number = 1, h_difficulty = 100\<rparr>"
  let ?s' = "\<lparr>st_headers =
        [(13, ?h),
         (12, \<lparr>h_hash = 12, h_parent = 11, h_number = 2, h_difficulty = 1\<rparr>),
         (11, \<lparr>h_hash = 11, h_parent = 0, h_number = 1, h_difficulty = 1\<rparr>),
         (10, \<lparr>h_hash = 10, h_parent = 0, h_number = 1, h_difficulty = 100\<rparr>),
         (0, \<lparr>h_hash = 0, h_parent = 0, h_number = 0, h_difficulty = 1\<rparr>)],
        st_td = [(13, 101), (12, 3), (11, 2), (10, 101), (0, 1)],
        st_head = Some 10, st_forks = [12, 13],
        st_canon = [(1, 10), (0, 0)]\<rparr>"
  have w: "write_header (run_ops ?ops) ?h = Inr ?s'"
    by code_simp
  have t: "total_difficulty (st_headers ?s') (h_hash ?h) = head_total (run_ops ?ops)"
    by code_simp
  have hd: "st_head (run_ops ?ops) = Some 10"
    by code_simp
  have t10: "total_difficulty (st_headers (run_ops ?ops)) 10 = 101"
    by code_simp
  have t12: "total_difficulty (st_headers (run_ops ?ops)) 12 = 3"
    by code_simp
  note main = head_is_heaviest_and_ties_keep_head [of ?ops]
  from main have hv: "heaviest (run_ops ?ops)"
    by (rule conjunct1)
  from main have rec: "\<forall>x. td_of (run_ops ?ops) x = total_difficulty (st_headers (run_ops ?ops)) x"
    by (elim conjE)
  from rec t12 have r12: "td_of (run_ops ?ops) 12 = 3"
    by (simp only:)
  from main have "\<forall>h s'. write_header (run_ops ?ops) h = Inr s' \<and>
            total_difficulty (st_headers s') (h_hash h) = head_total (run_ops ?ops) \<longrightarrow>
            st_head s' = st_head (run_ops ?ops) \<and>
            header_hd s' = header_hd (run_ops ?ops) \<and>
            h_hash h \<in> set (forks s') \<and>
            st_head s' \<noteq> Some (h_hash h)"
    by (elim conjE)
  note inst = this [rule_format, of ?h ?s', OF conjI [OF w t]]
  from inst have keep: "st_head ?s' = st_head (run_ops ?ops)"
    by (rule conjunct1)
  from inst have tip: "h_hash ?h \<in> set (forks ?s')"
    by (elim conjE)
  from keep hd have "st_head ?s' = Some 10"
    by (simp only:)
  with hv hd t10 t12 r12 w t tip show ?thesis
    unfolding Let_def by (intro conjI exI [of _ ?s'])
qed

section \<open>Decoding what the encoder produced\<close>

lemma unat_of_nat64: "n < 2 ^ 64 \<Longrightarrow> unat (of_nat n :: uint64) = n"
  by (simp add: unat_of_nat)

lemma checkBounds_bound: "RLP_checkBounds r sz = (if unat (bound r) < unat sz then Some EOF else None)"
  by (simp add: RLP_checkBounds_def bound_def Let_def word_less_nat_alt)

lemma checkBounds_ok: "n \<le> unat (bound r) \<Longrightarrow> RLP_checkBounds r (of_nat n) = None"
proof -
  assume a: "n \<le> unat (bound r)"
  have "unat (bound r) < 2 ^ 64" using unsigned_less [of "bound r", where ?'a = nat] by simp
  with a have "n < 2 ^ 64" by simp
  with a show ?thesis by (simp add: checkBounds_bound unat_of_nat64)
qed

lemma holds_at_Nil: "holds_at dat P [] = (P \<le> length dat)"
  by (simp add: holds_at_def)

lemma holds_at_Cons:
  "holds_at dat P (x # xs) = (P < length dat \<and> dat ! P = x \<and> holds_at dat (Suc P) xs)"
proof (cases "P < length dat")
  case True
  then have "drop P dat = dat ! P # drop (Suc P) dat"
    by (simp add: Cons_nth_drop_Suc)
  with True show ?thesis
    by (auto simp: holds_at_def)
next
  case False
  then show ?thesis by (simp add: holds_at_def)
qed

lemma holds_at_append:
  "holds_at dat P (xs @ ys) = (holds_at dat P xs \<and> holds_at dat (P + length xs) ys)"
proof (induction xs arbitrary: P)
  case Nil
  then show ?case by (auto simp: holds_at_def)
next
  case (Cons x xs)
  then show ?case by (simp add: holds_at_Cons)
qed

lemma holds_at_take_drop:
  "holds_at dat P bs \<Longrightarrow> take (length bs) (drop P dat) = bs"
  by (simp add: holds_at_def)

lemma holds_at_self: "holds_at bs 0 bs"
  by (simp add: holds_at_def)

lemma readByte_at:
  assumes "r_pos r = of_nat P" and "holds_at (r_data r) P [x]"
    and "length (r_data r) < 2 ^ 64" and "P + 1 \<le> unat (bound r)"
  shows "RLP_readByte r = (Ok x, r\<lparr>r_pos := of_nat (Suc P)\<rparr>)"
proof -
  from assms(2) have lt: "P < length (r_data r)" and x: "r_data r ! P = x"
    by (simp_all add: holds_at_Cons)
  from lt assms(3) have P: "P < 2 ^ 64" by simp
  from assms(4) have "RLP_checkBounds r (of_nat P) = None"
    by (intro checkBounds_ok) simp
  with assms(1) lt x P show ?thesis
    by (simp add: RLP_readByte_def unat_of_nat64)
qed


lemma be_val_zeros: "be_val (replicate j 0 @ bs) = be_val bs"
proof -
  have "foldl (\<lambda>acc b. acc * 256 + unat b) 0 (replicate j (0::byte)) = 0"
    by (induction j) simp_all
  then show ?thesis by (simp add: be_val_def)
qed

lemma be_val_single: "be_val [x] = unat x"
  by (simp add: be_val_def)

lemma bound_upd [simp]:
  "bound (r\<lparr>r_uintbuf := ub\<rparr>) = bound r"
  "bound (r\<lparr>r_pos := p\<rparr>) = bound r"
  "bound (r\<lparr>r_kind := k\<rparr>) = bound r"
  "bound (r\<lparr>r_size := sz\<rparr>) = bound r"
  by (simp_all add: bound_def)

lemma small_sizes:
  assumes "2 \<le> k" and "k \<le> 8"
  shows "(of_nat k :: uint64) \<noteq> 0" and "(of_nat k :: uint64) \<noteq> 1"
    and "sint (8 - of_nat k :: uint64) = 8 - int k" and "unat (of_nat k :: uint64) = k"
proof -
  from assms have "k = 2 \<or> k = 3 \<or> k = 4 \<or> k = 5 \<or> k = 6 \<or> k = 7 \<or> k = 8"
    by arith
  then show "(of_nat k :: uint64) \<noteq> 0" and "(of_nat k :: uint64) \<noteq> 1"
    and "sint (8 - of_nat k :: uint64) = 8 - int k" and "unat (of_nat k :: uint64) = k"
    by auto
qed

lemma readUint_at:
  assumes pos: "r_pos r = of_nat P" and at: "holds_at (r_data r) P bs"
    and k1: "1 \<le> length bs" and k8: "length bs \<le> 8"
    and len: "length (r_data r) < 2 ^ 64" and bnd: "P + length bs \<le> unat (bound r)"
  shows "\<exists>r'. RLP_readUint r (of_nat (length bs)) = (Ok (of_nat (be_val bs)), r') \<and>
              same_but r (P + length bs) r'"
proof (cases "length bs = 1")
  case True
  then obtain x where bs: "bs = [x]"
    by (cases bs) auto
  from pos at len bnd have "RLP_readByte r = (Ok x, r\<lparr>r_pos := of_nat (Suc P)\<rparr>)"
    unfolding bs by (intro readByte_at) simp_all
  then show ?thesis
    by (simp add: bs RLP_readUint_def be_val_single same_but_def)
next
  case False
  let ?k = "length bs"
  from False k1 have k2: "2 \<le> ?k" by simp
  note sz = small_sizes [OF k2 k8]
  from at have fits: "P + ?k \<le> length (r_data r)" and tk: "take ?k (drop P (r_data r)) = bs"
    by (simp_all add: holds_at_def)
  from fits len have P: "P < 2 ^ 64" by simp
  let ?r1 = "r\<lparr>r_uintbuf := replicate (8 - ?k) 0 @ drop (8 - ?k) (r_uintbuf r)\<rparr>"
  have cb: "RLP_checkBounds ?r1 (of_nat (P + ?k)) = None"
    using bnd by (intro checkBounds_ok) simp
  have "BigEndian_Uint64 (replicate (8 - ?k) 0 @ bs) = of_nat (be_val bs)"
    using k8 by (simp add: BigEndian_Uint64_def be_val_zeros)
  with sz cb fits tk P k8 show ?thesis
    by (simp add: RLP_readUint_def Let_def pos unat_of_nat64 same_but_def nat_diff_distrib)
qed


lemma ucast_of_nat_down: "(ucast (of_nat n :: uint64) :: byte) = of_nat n"
proof -
  have "(ucast (of_nat n :: uint64) :: byte) = of_nat (unat (of_nat n :: uint64))"
    by simp
  also have "\<dots> = of_nat (n mod 2 ^ 64)"
    by (simp add: unat_of_nat)
  also have "\<dots> = of_nat n"
    by (simp add: word_of_nat_eq_iff take_bit_eq_mod mod_mod_cancel)
  finally show ?thesis .
qed

lemma ucast_of_nat_up: "n < 256 \<Longrightarrow> (ucast (of_nat n :: byte) :: uint64) = of_nat n"
  by (simp add: unsigned_of_nat take_bit_nat_eq_self)

lemma unat_byte_add: "a + n < 256 \<Longrightarrow> unat (of_nat a + of_nat n :: byte) = a + n"
  by (simp add: unat_of_nat flip: of_nat_add)

lemma hdr_short_string:
  assumes "n < 56"
  shows "\<not> (0x80 + of_nat n :: byte) < 0x80" and "(0x80 + of_nat n :: byte) < 0xB8"
    and "(ucast ((0x80 + of_nat n :: byte) - 0x80) :: uint64) = of_nat n"
proof -
  from assms have u: "unat (0x80 + of_nat n :: byte) = 128 + n"
    using unat_byte_add [of 128 n] by simp
  from u assms show "\<not> (0x80 + of_nat n :: byte) < 0x80" and "(0x80 + of_nat n :: byte) < 0xB8"
    by (simp_all add: word_less_nat_alt)
  from assms show "(ucast ((0x80 + of_nat n :: byte) - 0x80) :: uint64) = of_nat n"
    by (simp add: ucast_of_nat_up)
qed

lemma hdr_long_string:
  assumes "1 \<le> k" and "k \<le> 8"
  shows "\<not> (0xB7 + of_nat k :: byte) < 0x80" and "\<not> (0xB7 + of_nat k :: byte) < 0xB8"
    and "(0xB7 + of_nat k :: byte) < 0xC0"
    and "(ucast ((0xB7 + of_nat k :: byte) - 0xB7) :: uint64) = of_nat k"
proof -
  from assms have u: "unat (0xB7 + of_nat k :: byte) = 183 + k"
    using unat_byte_add [of 183 k] by simp
  from u assms show "\<not> (0xB7 + of_nat k :: byte) < 0x80" and "\<not> (0xB7 + of_nat k :: byte) < 0xB8"
    and "(0xB7 + of_nat k :: byte) < 0xC0"
    by (simp_all add: word_less_nat_alt)
  from assms show "(ucast ((0xB7 + of_nat k :: byte) - 0xB7) :: uint64) = of_nat k"
    by (simp add: ucast_of_nat_up)
qed

lemma hdr_short_list:
  assumes "n < 56"
  shows "\<not> (0xC0 + of_nat n :: byte) < 0x80" and "\<not> (0xC0 + of_nat n :: byte) < 0xB8"
    and "\<not> (0xC0 + of_nat n :: byte) < 0xC0" and "(0xC0 + of_nat n :: byte) < 0xF8"
    and "(ucast ((0xC0 + of_nat n :: byte) - 0xC0) :: uint64) = of_nat n"
proof -
  from assms have u: "unat (0xC0 + of_nat n :: byte) = 192 + n"
    using unat_byte_add [of 192 n] by simp
  from u assms show "\<not> (0xC0 + of_nat n :: byte) < 0x80" and "\<not> (0xC0 + of_nat n :: byte) < 0xB8"
    and "\<not> (0xC0 + of_nat n :: byte) < 0xC0" and "(0xC0 + of_nat n :: byte) < 0xF8"
    by (simp_all add: word_less_nat_alt)
  from assms show "(ucast ((0xC0 + of_nat n :: byte) - 0xC0) :: uint64) = of_nat n"
    by (simp add: ucast_of_nat_up)
qed

lemma hdr_long_list:
  assumes "1 \<le> k" and "k \<le> 8"
  shows "\<not> (0xF7 + of_nat k :: byte) < 0x80" and "\<not> (0xF7 + of_nat k :: byte) < 0xB8"
    and "\<not> (0xF7 + of_nat k :: byte) < 0xC0" and "\<not> (0xF7 + of_nat k :: byte) < 0xF8"
    and "(ucast ((0xF7 + of_nat k :: byte) - 0xF7) :: uint64) = of_nat k"
proof -
  from assms have u: "unat (0xF7 + of_nat k :: byte) = 247 + k"
    using unat_byte_add [of 247 k] by simp
  from u assms show "\<not> (0xF7 + of_nat k :: byte) < 0x80" and "\<not> (0xF7 + of_nat k :: byte) < 0xB8"
    and "\<not> (0xF7 + of_nat k :: byte) < 0xC0" and "\<not> (0xF7 + of_nat k :: byte) < 0xF8"
    by (simp_all add: word_less_nat_alt)
  from assms show "(ucast ((0xF7 + of_nat k :: byte) - 0xF7) :: uint64) = of_nat k"
    by (simp add: ucast_of_nat_up)
qed

lemma be_val_putUint32: "be_val (putUint32 n) = unat n"
proof (cases "n = 0")
  case True
  then show ?thesis by (simp add: putUint32_explicit be_val_single)
next
  case False
  then show ?thesis by (simp add: putUint32_be be_val_be_bytes)
qed

lemma of_nat_lt_56: "n < 2 ^ 64 \<Longrightarrow> ((of_nat n :: uint64) < 56) = (n < 56)"
  by (simp add: word_less_nat_alt unat_of_nat64)


lemma bound_cong: "r_lists r' = r_lists r \<Longrightarrow> r_len r' = r_len r \<Longrightarrow> bound r' = bound r"
  by (simp add: bound_def)

lemma Kind_single_byte:
  assumes "r_pos r = of_nat P" and "r_kind r = NoKind" and "holds_at (r_data r) P [x]"
    and "length (r_data r) < 2 ^ 64" and "P + 1 \<le> unat (bound r)" and "x < 0x80"
  shows "\<exists>r'. RLP_Kind r = (Ok (KByte, ucast x), r') \<and> cached r (P + 1) KByte (ucast x) r'"
proof -
  from assms have "RLP_readByte r = (Ok x, r\<lparr>r_pos := of_nat (Suc P)\<rparr>)"
    by (intro readByte_at)
  with assms(2,6) show ?thesis
    by (simp add: RLP_Kind_def RLP_readKind_def cached_def)
qed

lemma Kind_short_string:
  assumes "r_pos r = of_nat P" and "r_kind r = NoKind"
    and "holds_at (r_data r) P [0x80 + of_nat n]"
    and "length (r_data r) < 2 ^ 64" and "P + 1 \<le> unat (bound r)" and "n < 56"
  shows "\<exists>r'. RLP_Kind r = (Ok (KBytes, of_nat n), r') \<and> cached r (P + 1) KBytes (of_nat n) r'"
proof -
  from assms have "RLP_readByte r = (Ok (0x80 + of_nat n), r\<lparr>r_pos := of_nat (Suc P)\<rparr>)"
    by (intro readByte_at)
  with assms(2) hdr_short_string [OF assms(6)] show ?thesis
    by (simp add: RLP_Kind_def RLP_readKind_def cached_def)
qed

lemma Kind_short_list:
  assumes "r_pos r = of_nat P" and "r_kind r = NoKind"
    and "holds_at (r_data r) P [0xC0 + of_nat n]"
    and "length (r_data r) < 2 ^ 64" and "P + 1 \<le> unat (bound r)" and "n < 56"
  shows "\<exists>r'. RLP_Kind r = (Ok (KList, of_nat n), r') \<and> cached r (P + 1) KList (of_nat n) r'"
proof -
  from assms have "RLP_readByte r = (Ok (0xC0 + of_nat n), r\<lparr>r_pos := of_nat (Suc P)\<rparr>)"
    by (intro readByte_at)
  with assms(2) hdr_short_list [OF assms(6)] show ?thesis
    by (simp add: RLP_Kind_def RLP_readKind_def cached_def)
qed

lemma Kind_long_string:
  assumes pos: "r_pos r = of_nat P" and nk: "r_kind r = NoKind"
    and at: "holds_at (r_data r) P ((0xB7 + of_nat (length (putUint32 m))) # putUint32 m)"
    and len: "length (r_data r) < 2 ^ 64"
    and bnd: "P + 1 + length (putUint32 m) \<le> unat (bound r)"
  shows "\<exists>r'. RLP_Kind r = (Ok (KBytes, m), r') \<and>
              cached r (P + 1 + length (putUint32 m)) KBytes m r'"
proof -
  let ?ss = "putUint32 m"
  let ?k = "length ?ss"
  note k = length_putUint32 [of m]
  from k have k1: "1 \<le> ?k" and k8: "?k \<le> 8" by simp_all
  note h = hdr_long_string [OF k1 k8]
  from at have at1: "holds_at (r_data r) P [0xB7 + of_nat ?k]"
    and at2: "holds_at (r_data r) (Suc P) ?ss"
    by (simp_all add: holds_at_Cons holds_at_Nil less_imp_le Suc_leI)
  let ?r1 = "r\<lparr>r_pos := of_nat (Suc P)\<rparr>"
  from pos at1 len bnd have rb: "RLP_readByte r = (Ok (0xB7 + of_nat ?k), ?r1)"
    by (intro readByte_at) simp_all
  have "\<exists>r'. RLP_readUint ?r1 (of_nat ?k) = (Ok (of_nat (be_val ?ss)), r') \<and>
             same_but ?r1 (Suc P + ?k) r'"
    using at2 k1 k8 len bnd by (intro readUint_at) simp_all
  then obtain r2 where ru: "RLP_readUint ?r1 (of_nat ?k) = (Ok m, r2)"
    and sb: "same_but ?r1 (Suc P + ?k) r2"
    by (auto simp: be_val_putUint32)
  from rb ru h nk sb show ?thesis
    by (simp add: RLP_Kind_def RLP_readKind_def cached_def same_but_def)
qed

lemma Kind_long_list:
  assumes pos: "r_pos r = of_nat P" and nk: "r_kind r = NoKind"
    and at: "holds_at (r_data r) P ((0xF7 + of_nat (length (putUint32 m))) # putUint32 m)"
    and len: "length (r_data r) < 2 ^ 64"
    and bnd: "P + 1 + length (putUint32 m) \<le> unat (bound r)"
    and big: "\<not> m < 56"
  shows "\<exists>r'. RLP_Kind r = (Ok (KList, m), r') \<and>
              cached r (P + 1 + length (putUint32 m)) KList m r'"
proof -
  let ?ss = "putUint32 m"
  let ?k = "length ?ss"
  note k = length_putUint32 [of m]
  from k have k1: "1 \<le> ?k" and k8: "?k \<le> 8" by simp_all
  note h = hdr_long_list [OF k1 k8]
  from at have at1: "holds_at (r_data r) P [0xF7 + of_nat ?k]"
    and at2: "holds_at (r_data r) (Suc P) ?ss"
    by (simp_all add: holds_at_Cons holds_at_Nil less_imp_le Suc_leI)
  let ?r1 = "r\<lparr>r_pos := of_nat (Suc P)\<rparr>"
  from pos at1 len bnd have rb: "RLP_readByte r = (Ok (0xF7 + of_nat ?k), ?r1)"
    by (intro readByte_at) simp_all
  have "\<exists>r'. RLP_readUint ?r1 (of_nat ?k) = (Ok (of_nat (be_val ?ss)), r') \<and>
             same_but ?r1 (Suc P + ?k) r'"
    using at2 k1 k8 len bnd by (intro readUint_at) simp_all
  then obtain r2 where ru: "RLP_readUint ?r1 (of_nat ?k) = (Ok m, r2)"
    and sb: "same_but ?r1 (Suc P + ?k) r2"
    by (auto simp: be_val_putUint32)
  from rb ru h nk sb big show ?thesis
    by (simp add: RLP_Kind_def RLP_readKind_def cached_def same_but_def)
qed

lemma Bytes_after_Kind:
  assumes kd: "RLP_Kind r = (Ok (KBytes, of_nat (length b)), r')"
    and c: "cached r Q KBytes (of_nat (length b)) r'"
    and at: "holds_at (r_data r) Q b"
    and len: "length (r_data r) < 2 ^ 64" and bnd: "Q + length b \<le> unat (bound r)"
  shows "\<exists>r''. RLP_Bytes r = (Ok b, r'') \<and> moved r (Q + length b) r''"
proof -
  from at have fits: "Q + length b \<le> length (r_data r)" and tk: "take (length b) (drop Q (r_data r)) = b"
    by (simp_all add: holds_at_def)
  from fits len have Q: "Q < 2 ^ 64" and n: "length b < 2 ^ 64" by simp_all
  from c have b': "bound r' = bound r"
    by (intro bound_cong) (simp_all add: cached_def)
  have cb: "RLP_checkBounds r' (of_nat (Q + length b)) = None"
    using bnd b' by (intro checkBounds_ok) simp
  from c cb fits tk Q n show ?thesis
    by (simp add: RLP_Bytes_def kd cached_def moved_def unat_of_nat64)
qed


lemma ucast_byte_round: "(ucast (ucast (x::byte) :: uint64) :: byte) = x"
  by (rule bit_word_eqI) (auto simp: bit_simps)

lemma encodeItem_single: "length b = 1 \<Longrightarrow> b ! 0 \<le> 0x7f \<Longrightarrow> encodeItem b = b"
  by (simp add: encodeItem_def)

lemma encodeItem_short:
  "\<not> (length b = 1 \<and> b ! 0 \<le> 0x7f) \<Longrightarrow> length b < 56 \<Longrightarrow>
   encodeItem b = (0x80 + of_nat (length b)) # b"
  by (simp add: encodeItem_def Let_def of_nat_lt_56 ucast_of_nat_down)

lemma encodeItem_long:
  "56 \<le> length b \<Longrightarrow> length b < 2 ^ 64 \<Longrightarrow>
   encodeItem b =
     ((0xB7 + of_nat (length (putUint32 (of_nat (length b))))) #
        putUint32 (of_nat (length b))) @ b"
  by (auto simp: encodeItem_def Let_def of_nat_lt_56)

lemma length_encodeItem_ge: "length b \<le> length (encodeItem b)"
  by (simp add: encodeItem_def Let_def)

lemma Bytes_encodeItem:
  assumes rdy: "ready r P (encodeItem b)"
  shows "\<exists>r'. RLP_Bytes r = (Ok b, r') \<and> moved r (P + length (encodeItem b)) r'"
proof -
  from rdy have pos: "r_pos r = of_nat P" and nk: "r_kind r = NoKind"
    and at: "holds_at (r_data r) P (encodeItem b)" and len: "length (r_data r) < 2 ^ 64"
    and bnd: "P + length (encodeItem b) \<le> unat (bound r)"
    by (simp_all add: ready_def)
  from at have "P + length (encodeItem b) \<le> length (r_data r)"
    by (simp add: holds_at_def)
  with len length_encodeItem_ge [of b] have n64: "length b < 2 ^ 64"
    by simp
  consider (single) "length b = 1" "b ! 0 \<le> 0x7f"
    | (short) "\<not> (length b = 1 \<and> b ! 0 \<le> 0x7f)" "length b < 56"
    | (long) "56 \<le> length b"
    by fastforce
  then show ?thesis
  proof cases
    case single
    then obtain x where b: "b = [x]" and x: "x \<le> 0x7f"
      by (cases b) auto
    from x have x': "x < 0x80"
      by (simp add: word_less_nat_alt word_le_nat_alt)
    from single have e: "encodeItem b = [x]"
      by (simp add: encodeItem_single b)
    from pos nk at len bnd x' obtain r' where
      kd: "RLP_Kind r = (Ok (KByte, ucast x), r')" and c: "cached r (P + 1) KByte (ucast x) r'"
      unfolding e using Kind_single_byte [of r P x] by auto
    from e have le: "length (encodeItem b) = 1"
      by simp
    from c show ?thesis
      unfolding le by (simp add: RLP_Bytes_def kd cached_def moved_def ucast_byte_round b)
  next
    case short
    then have e: "encodeItem b = (0x80 + of_nat (length b)) # b"
      by (rule encodeItem_short)
    from at have at1: "holds_at (r_data r) P [0x80 + of_nat (length b)]"
      and at2: "holds_at (r_data r) (P + 1) b"
      unfolding e by (simp_all add: holds_at_Cons holds_at_Nil Suc_leI)
    from pos nk at1 len bnd short(2) obtain r' where
      kd: "RLP_Kind r = (Ok (KBytes, of_nat (length b)), r')"
      and c: "cached r (P + 1) KBytes (of_nat (length b)) r'"
      unfolding e using Kind_short_string [of r P "length b"] by auto
    from kd c at2 len bnd show ?thesis
      unfolding e using Bytes_after_Kind [of r b r' "P + 1"] by (simp add: add.assoc)
  next
    case long
    let ?m = "of_nat (length b) :: uint64"
    let ?ss = "putUint32 ?m"
    from long n64 have e: "encodeItem b = ((0xB7 + of_nat (length ?ss)) # ?ss) @ b"
      by (rule encodeItem_long)
    from at have at1: "holds_at (r_data r) P ((0xB7 + of_nat (length ?ss)) # ?ss)"
      and at2: "holds_at (r_data r) (P + 1 + length ?ss) b"
      unfolding e by (simp_all add: holds_at_append holds_at_Cons)
    from pos nk at1 len bnd obtain r' where
      kd: "RLP_Kind r = (Ok (KBytes, ?m), r')"
      and c: "cached r (P + 1 + length ?ss) KBytes ?m r'"
      unfolding e using Kind_long_string [of r P ?m] by auto
    from kd c at2 len bnd show ?thesis
      unfolding e using Bytes_after_Kind [of r b r' "P + 1 + length ?ss"]
      by (simp add: add.assoc)
  qed
qed


lemma ready_bound: "ready r P bs \<Longrightarrow> P + length bs < 2 ^ 64"
  by (simp add: ready_def holds_at_def)

lemma moved_bound: "moved r Q r' \<Longrightarrow> bound r' = bound r"
  by (intro bound_cong) (simp_all add: moved_def)

lemma encodeItem_Nil: "encodeItem [] = [0x80]"
  by (simp add: encodeItem_def)

lemma encodeUint_as_item:
  "encodeUint i = encodeItem (if i = 0 then [] else putUint32 i)"
  by (simp add: encodeUint_def encodeItem_Nil)

lemma of_nat_unat64: "(of_nat (unat (i::uint64)) :: uint64) = i"
  by simp

lemma Uint_encodeUint:
  assumes rdy: "ready r P (encodeUint i)"
  shows "\<exists>r'. RLP_Uint r = (Ok i, r') \<and> moved r (P + length (encodeUint i)) r'"
proof -
  define ib where "ib = (if i = 0 then [] else putUint32 i)"
  define k where "k = length ib"
  have e: "encodeUint i = encodeItem ib"
    unfolding ib_def by (rule encodeUint_as_item)
  have "be_val [] = 0"
    by (simp add: be_val_def)
  then have val: "(of_nat (be_val ib) :: uint64) = i"
    by (simp add: ib_def be_val_putUint32)
  have k8: "k \<le> 8"
    using length_putUint32 [of i] by (simp add: k_def ib_def)
  from rdy have pos: "r_pos r = of_nat P" and nk: "r_kind r = NoKind"
    and at: "holds_at (r_data r) P (encodeItem ib)" and len: "length (r_data r) < 2 ^ 64"
    and bnd: "P + length (encodeItem ib) \<le> unat (bound r)"
    unfolding e by (simp_all add: ready_def)
  from rdy obtain r1 where by1: "RLP_Bytes r = (Ok ib, r1)"
    and mv: "moved r (P + length (encodeItem ib)) r1"
    unfolding e using Bytes_encodeItem [of r P ib] by blast
  consider (zero) "k = 0" | (one) "k = 1" | (more) "2 \<le> k"
    by linarith
  then show ?thesis
  proof cases
    case zero
    then have "ib = []"
      by (simp add: k_def)
    moreover from this have "i = 0"
      using length_putUint32 [of i] by (auto simp: ib_def split: if_splits)
    ultimately show ?thesis
      using mv unfolding e
      by (simp add: RLP_Uint_def RLP_uint_def by1 RLP_readUint_def moved_def)
  next
    case one
    then obtain x where ib: "ib = [x]"
      unfolding k_def by (cases ib) auto
    from val have "(ucast x :: uint64) = i"
      unfolding ib by (simp add: be_val_single)
    with mv show ?thesis
      unfolding e by (simp add: RLP_Uint_def RLP_uint_def by1 ib)
  next
    case more
    note sz = small_sizes [OF more k8]
    from more have ne: "\<not> (length ib = 1 \<and> ib ! 0 \<le> 0x7f)"
      by (simp add: k_def)
    from k8 have "length ib < 56"
      by (simp add: k_def)
    with ne have ei: "encodeItem ib = (0x80 + of_nat k) # ib"
      unfolding k_def by (rule encodeItem_short)
    then have le: "length (encodeItem ib) = 1 + k"
      by (simp add: k_def)
    from at have at2: "holds_at (r_data r) (P + 1) ib"
      unfolding ei by (simp add: holds_at_Cons)
    define r1' where "r1' = r1\<lparr>r_pos := r_pos r1 - of_nat k\<rparr>"
    from mv have p1: "r_pos r1' = of_nat (P + 1)"
      unfolding le r1'_def by (simp add: moved_def)
    from mv have d1: "r_data r1' = r_data r" and b1: "bound r1' = bound r"
      and o1: "r_kind r1' = NoKind" "r_lists r1' = r_lists r" "r_len r1' = r_len r"
      unfolding r1'_def by (simp_all add: moved_def bound_def)
    have "\<exists>r'. RLP_readUint r1' (of_nat (length ib)) = (Ok (of_nat (be_val ib)), r') \<and>
               same_but r1' (P + 1 + length ib) r'"
    proof (rule readUint_at)
      show "r_pos r1' = of_nat (P + 1)" by (rule p1)
      show "holds_at (r_data r1') (P + 1) ib" unfolding d1 by (rule at2)
      show "1 \<le> length ib" using more by (simp add: k_def)
      show "length ib \<le> 8" using k8 by (simp add: k_def)
      show "length (r_data r1') < 2 ^ 64" unfolding d1 by (rule len)
      show "P + 1 + length ib \<le> unat (bound r1')"
        unfolding b1 using bnd le by (simp add: k_def)
    qed
    then obtain r2 where ru: "RLP_readUint r1' (of_nat k) = (Ok i, r2)"
      and sb: "same_but r1' (P + 1 + k) r2"
      unfolding val k_def by blast
    have gt: "\<not> (of_nat k :: uint64) > 8"
      using k8 sz(4) by (simp add: word_less_nat_alt)
    from sb d1 o1 have "moved r (P + length (encodeItem ib)) r2"
      unfolding le by (simp add: moved_def same_but_def add.assoc)
    with ru sz gt show ?thesis
      unfolding e by (simp add: RLP_Uint_def RLP_uint_def by1 k_def [symmetric] r1'_def [symmetric])
  qed
qed

lemma BigInt_encodeItem:
  assumes rdy: "ready r P (encodeItem (be_bytes n))"
  shows "\<exists>r'. RLP_BigInt r = (Ok (int n), r') \<and>
              moved r (P + length (encodeItem (be_bytes n))) r'"
proof -
  from rdy obtain r1 where by1: "RLP_Bytes r = (Ok (be_bytes n), r1)"
    and mv: "moved r (P + length (encodeItem (be_bytes n))) r1"
    using Bytes_encodeItem [of r P "be_bytes n"] by blast
  have "\<not> (length (be_bytes n) > 0 \<and> be_bytes n ! 0 = 0)"
  proof (cases "n = 0")
    case True
    then show ?thesis by (simp add: be_bytes_0)
  next
    case False
    then have "hd (be_bytes n) \<noteq> 0" and "be_bytes n \<noteq> []"
      by (simp_all add: hd_be_bytes be_bytes_nonempty)
    then show ?thesis
      by (simp add: hd_conv_nth)
  qed
  with mv show ?thesis
    by (simp add: RLP_BigInt_def by1 be_val_be_bytes)
qed


lemma encodeElems_concat:
  "encodeElems vs acc = Ok dat \<Longrightarrow>
   \<exists>ds. list_all2 (\<lambda>v d. encode v = Ok d) vs ds \<and> dat = acc @ concat ds"
proof (induction vs arbitrary: acc)
  case Nil
  then show ?case by simp
next
  case (Cons v vs)
  from Cons.prems obtain j where j: "encode v = Ok j" and rest: "encodeElems vs (acc @ j) = Ok dat"
    by (auto split: result.splits)
  from Cons.IH [OF rest] obtain ds where
    "list_all2 (\<lambda>v d. encode v = Ok d) vs ds" and "dat = (acc @ j) @ concat ds"
    by blast
  with j have "list_all2 (\<lambda>v d. encode v = Ok d) (v # vs) (j # ds) \<and> dat = acc @ concat (j # ds)"
    by simp
  then show ?case by blast
qed

lemma encodeList_shape:
  assumes "encodeList vs = Ok bs"
  shows "\<exists>ds hdr. list_all2 (\<lambda>v d. encode v = Ok d) vs ds \<and>
              bs = hdr @ concat ds \<and>
              (length (concat ds) < 2 ^ 64 \<longrightarrow> hdr = list_header (length (concat ds)))"
proof (cases "vs = []")
  case True
  with assms have "bs = [0xC0]" by simp
  with True show ?thesis
    by (intro exI [of _ "[]"] exI [of _ "[0xC0]"]) (simp add: list_header_def)
next
  case False
  with assms obtain dat where el: "encodeElems vs [] = Ok dat"
    by (auto split: result.splits)
  from encodeElems_concat [OF el] obtain ds where
    ds: "list_all2 (\<lambda>v d. encode v = Ok d) vs ds" and dat: "dat = concat ds"
    by auto
  define hdr where "hdr =
    (if (of_nat (length dat) :: uint64) < 56 then [0xC0 + of_nat (length dat)]
     else (0xF7 + of_nat (length (putUint32 (of_nat (length dat))))) #
            putUint32 (of_nat (length dat)))"
  have bs: "bs = hdr @ dat"
    using assms False el by (auto simp: hdr_def Let_def ucast_of_nat_down)
  have "hdr = list_header (length dat)" if "length dat < 2 ^ 64"
    using that by (simp add: hdr_def list_header_def of_nat_lt_56)
  with ds dat bs show ?thesis by blast
qed

lemma length_list_header: "1 \<le> length (list_header n)"
  by (simp add: list_header_def)

lemma List_at:
  assumes rdy: "ready r P (list_header (length dat) @ dat)"
  shows "\<exists>r'. RLP_List r = (Ok (of_nat (length dat)), r') \<and>
              r_data r' = r_data r \<and>
              r_pos r' = of_nat (P + length (list_header (length dat))) \<and>
              r_kind r' = NoKind \<and>
              r_lists r' = of_nat (P + length (list_header (length dat)) + length dat) # r_lists r \<and>
              r_len r' = r_len r"
proof -
  define n where "n = length dat"
  from rdy have pos: "r_pos r = of_nat P" and nk: "r_kind r = NoKind"
    and at: "holds_at (r_data r) P (list_header n)" and len: "length (r_data r) < 2 ^ 64"
    and bnd: "P + length (list_header n) \<le> unat (bound r)"
    by (simp_all add: ready_def holds_at_append n_def)
  from rdy have tot: "P + length (list_header n) + n \<le> length (r_data r)"
    by (simp add: ready_def holds_at_def n_def)
  from tot len have n64: "n < 2 ^ 64" by simp
  have "\<exists>r'. RLP_Kind r = (Ok (KList, of_nat n), r') \<and>
             cached r (P + length (list_header n)) KList (of_nat n) r'"
  proof (cases "n < 56")
    case True
    then have h: "list_header n = [0xC0 + of_nat n]"
      by (simp add: list_header_def)
    from pos nk at len bnd True show ?thesis
      unfolding h using Kind_short_list [of r P n] by simp
  next
    case False
    let ?m = "of_nat n :: uint64"
    from False have h: "list_header n = (0xF7 + of_nat (length (putUint32 ?m))) # putUint32 ?m"
      by (simp add: list_header_def)
    from False n64 have big: "\<not> ?m < 56"
      by (simp add: of_nat_lt_56)
    from pos nk at len bnd big show ?thesis
      unfolding h using Kind_long_list [of r P ?m] by simp
  qed
  then obtain r' where kd: "RLP_Kind r = (Ok (KList, of_nat n), r')"
    and c: "cached r (P + length (list_header n)) KList (of_nat n) r'"
    by blast
  from c show ?thesis
    unfolding n_def [symmetric]
    by (simp add: RLP_List_def kd cached_def add.assoc)
qed


lemma ready_prefix: "ready r P (xs @ ys) \<Longrightarrow> ready r P xs"
  by (simp add: ready_def holds_at_append)

lemma ready_suffix:
  assumes "ready r P (xs @ ys)" and "moved r (P + length xs) r'"
  shows "ready r' (P + length xs) ys"
proof -
  from assms(2) have "bound r' = bound r"
    by (rule moved_bound)
  with assms show ?thesis
    by (simp add: ready_def holds_at_append moved_def add.assoc)
qed

lemma moved_trans: "moved r Q r' \<Longrightarrow> moved r' Q' r'' \<Longrightarrow> moved r Q' r''"
  by (simp add: moved_def)

lemma moved_refl: "ready r P bs \<Longrightarrow> moved r P r"
  by (simp add: ready_def moved_def)

lemma validateElems_at:
  assumes enc: "list_all2 (\<lambda>v d. encode v = Ok d) vs ds"
    and ih: "\<And>v r P d. v \<in> set vs \<Longrightarrow> recognized v \<Longrightarrow> encode v = Ok d \<Longrightarrow> ready r P d \<Longrightarrow>
               \<exists>r'. validateDecoding r v = (Ok (), r') \<and> moved r (P + length d) r'"
    and rec: "list_all recognized vs"
    and rdy: "ready r P (concat ds)"
  shows "\<exists>r'. validateElems r vs = (Ok (), r') \<and> moved r (P + length (concat ds)) r'"
  using enc ih rec rdy
proof (induction vs ds arbitrary: r P rule: list_all2_induct)
  case Nil
  then show ?case
    by (simp add: moved_refl)
next
  case (Cons v vs d ds)
  from Cons.prems(3) have rdy: "ready r P (d @ concat ds)"
    by simp
  from Cons.prems(2) have rv: "recognized v" and rvs: "list_all recognized vs"
    by simp_all
  have "\<exists>r'. validateDecoding r v = (Ok (), r') \<and> moved r (P + length d) r'"
    by (rule Cons.prems(1)) (simp_all add: rv Cons.hyps(1) ready_prefix [OF rdy])
  then obtain r1 where v1: "validateDecoding r v = (Ok (), r1)"
    and m1: "moved r (P + length d) r1"
    by blast
  have rdy1: "ready r1 (P + length d) (concat ds)"
    using rdy m1 by (rule ready_suffix)
  have "\<exists>r'. validateElems r1 vs = (Ok (), r') \<and>
             moved r1 (P + length d + length (concat ds)) r'"
  proof (rule Cons.IH)
    show "list_all recognized vs" by (rule rvs)
    show "ready r1 (P + length d) (concat ds)" by (rule rdy1)
  next
    fix v' r' P' d'
    assume "v' \<in> set vs" "recognized v'" "encode v' = Ok d'" "ready r' P' d'"
    then show "\<exists>r''. validateDecoding r' v' = (Ok (), r'') \<and> moved r' (P' + length d') r''"
      by (intro Cons.prems(1)) simp_all
  qed
  then obtain r2 where v2: "validateElems r1 vs = (Ok (), r2)"
    and m2: "moved r1 (P + length d + length (concat ds)) r2"
    by blast
  from m1 m2 have "moved r (P + length (concat (d # ds))) r2"
    by (simp add: moved_def add.assoc)
  with v1 v2 show ?case
    by simp
qed

lemma validateDecoding_encode:
  "recognized v \<Longrightarrow> encode v = Ok d \<Longrightarrow> ready r P d \<Longrightarrow>
   \<exists>r'. validateDecoding r v = (Ok (), r') \<and> moved r (P + length d) r'"
proof (induction v arbitrary: r P d)
  case (VUint i)
  then have "ready r P (encodeUint i)" and d: "d = encodeUint i"
    by auto
  from Uint_encodeUint [OF this(1)] show ?case
    unfolding d by auto
next
  case (VBigInt i)
  then have nn: "0 \<le> i" by simp
  with VBigInt have d: "d = encodeItem (be_bytes (nat i))"
    by (auto simp: encodeBigInt_def)
  from VBigInt.prems(3) have "ready r P (encodeItem (be_bytes (nat i)))"
    unfolding d .
  from BigInt_encodeItem [OF this] nn show ?case
    unfolding d by auto
next
  case (VBytes b)
  then have "ready r P (encodeItem b)" and d: "d = encodeItem b"
    by auto
  from Bytes_encodeItem [OF this(1)] show ?case
    unfolding d by auto
next
  case (VString b)
  then have "ready r P (encodeItem b)" and d: "d = encodeItem b"
    by (auto simp: encodeString_def)
  from Bytes_encodeItem [OF this(1)] show ?case
    unfolding d by (auto simp: RLP_String_def)
next
  case (VSlice vs)
  from VSlice.prems(1) have rec: "list_all recognized vs"
    by simp
  from VSlice.prems(2) have "encodeList vs = Ok d"
    by simp
  from encodeList_shape [OF this] obtain ds hdr where
    enc: "list_all2 (\<lambda>v d. encode v = Ok d) vs ds" and d: "d = hdr @ concat ds"
    and hdr: "length (concat ds) < 2 ^ 64 \<Longrightarrow> hdr = list_header (length (concat ds))"
    by blast
  define dat where "dat = concat ds"
  define n where "n = length dat"
  from ready_bound [OF VSlice.prems(3)] have "n < 2 ^ 64"
    by (simp add: d n_def dat_def)
  with hdr have h: "hdr = list_header n"
    by (simp add: n_def dat_def)
  define H where "H = length (list_header n)"
  from VSlice.prems(3) have rdy: "ready r P (list_header n @ dat)"
    by (simp add: d h dat_def)
  from List_at [of r P dat] rdy obtain r1 where
    l1: "RLP_List r = (Ok (of_nat n), r1)" and d1: "r_data r1 = r_data r"
    and p1: "r_pos r1 = of_nat (P + H)" and k1: "r_kind r1 = NoKind"
    and s1: "r_lists r1 = of_nat (P + H + n) # r_lists r" and n1: "r_len r1 = r_len r"
    unfolding n_def [symmetric] H_def [symmetric] by blast
  from ready_bound [OF rdy] have tot: "P + H + n < 2 ^ 64"
    by (simp add: H_def n_def add.assoc)
  have "bound r1 = of_nat (P + H + n)"
    unfolding bound_def s1 by simp
  with tot have b1: "unat (bound r1) = P + H + n"
    by (simp only: unat_of_nat64)
  from rdy have rdy1: "ready r1 (P + H) dat"
    by (simp add: ready_def holds_at_append d1 p1 k1 b1 H_def n_def)
  have "\<exists>r'. validateElems r1 vs = (Ok (), r') \<and> moved r1 (P + H + length (concat ds)) r'"
  proof (rule validateElems_at [OF enc _ rec])
    show "ready r1 (P + H) (concat ds)"
      using rdy1 by (simp add: dat_def)
  next
    fix v r' P' d'
    assume "v \<in> set vs" "recognized v" "encode v = Ok d'" "ready r' P' d'"
    then show "\<exists>r''. validateDecoding r' v = (Ok (), r'') \<and> moved r' (P' + length d') r''"
      by (rule VSlice.IH)
  qed
  then obtain r2 where v2: "validateElems r1 vs = (Ok (), r2)"
    and m2: "moved r1 (P + H + n) r2"
    by (auto simp: n_def dat_def)
  from m2 s1 have e2: "RLP_EndList r2 = (Ok (), r2\<lparr>r_lists := r_lists r\<rparr>)"
    by (simp add: RLP_EndList_def moved_def)
  from m2 d1 n1 have "moved r (P + length d) (r2\<lparr>r_lists := r_lists r\<rparr>)"
    by (simp add: moved_def d h H_def n_def dat_def add.assoc)
  with l1 v2 e2 show ?case
    by simp
qed simp_all

lemma encodeElems_total:
  "(\<And>v. v \<in> set vs \<Longrightarrow> \<exists>d. encode v = Ok d) \<Longrightarrow> \<exists>dat. encodeElems vs acc = Ok dat"
proof (induction vs arbitrary: acc)
  case Nil
  then show ?case by simp
next
  case (Cons v vs)
  from Cons.prems [of v] obtain d where d: "encode v = Ok d"
    by auto
  have "\<exists>dat. encodeElems vs (acc @ d) = Ok dat"
    by (rule Cons.IH) (simp add: Cons.prems)
  with d show ?case by simp
qed

lemma encode_total: "recognized v \<Longrightarrow> \<exists>d. encode v = Ok d"
proof (induction v)
  case (VSlice vs)
  then have el: "\<And>v. v \<in> set vs \<Longrightarrow> \<exists>d. encode v = Ok d"
    by (simp add: list_all_iff)
  have "\<exists>dat. encodeElems vs [] = Ok dat"
    by (rule encodeElems_total) (rule el)
  then obtain dat where "encodeElems vs [] = Ok dat"
    by blast
  then show ?case
    by (simp add: Let_def)
qed (simp_all add: encodeBigInt_def)

lemma ready_NewRLP: "length bs < 2 ^ 64 \<Longrightarrow> ready (NewRLP bs) 0 bs"
  by (simp add: ready_def NewRLP_def holds_at_def bound_def unat_of_nat64)

text \<open>
  C1, as amended. For every value of the recognized universe the encoder succeeds, and
  when the encoding is shorter than \<open>2^64\<close> bytes, reading it back with the reader
  operations that match the value's shape (\<open>Uint\<close>, \<open>BigInt\<close>, \<open>Bytes\<close>,
  \<open>String\<close>, and \<open>List\<close> ... \<open>EndList\<close> around the elements) yields the
  value again and leaves the reader at the end of the encoding with no list open.
\<close>

theorem encode_then_decode:
  "recognized v \<Longrightarrow>
   \<exists>bs. EncodeToRLP v = Ok bs \<and>
        (length bs < 2 ^ 64 \<longrightarrow>
           (\<exists>r'. validateDecoding (NewRLP bs) v = (Ok (), r') \<and>
                 r_pos r' = of_nat (length bs) \<and> r_kind r' = NoKind \<and> r_lists r' = []))"
proof -
  assume rec: "recognized v"
  then obtain bs where bs: "encode v = Ok bs"
    using encode_total by blast
  have "\<exists>r'. validateDecoding (NewRLP bs) v = (Ok (), r') \<and>
             r_pos r' = of_nat (length bs) \<and> r_kind r' = NoKind \<and> r_lists r' = []"
    if "length bs < 2 ^ 64"
  proof -
    from that have "ready (NewRLP bs) 0 bs"
      by (rule ready_NewRLP)
    from validateDecoding_encode [OF rec bs this]
    obtain r' where "validateDecoding (NewRLP bs) v = (Ok (), r')"
      and "moved (NewRLP bs) (0 + length bs) r'"
      by blast
    then show ?thesis
      by (auto simp: moved_def NewRLP_def)
  qed
  with bs show ?thesis
    by (auto simp: EncodeToRLP_def)
qed

theorem encode_then_decode_witness:
  "recognized (VSlice [VString [0x63, 0x61, 0x74], VUint 1024, VBigInt 0]) \<and>
   EncodeToRLP (VSlice [VString [0x63, 0x61, 0x74], VUint 1024, VBigInt 0]) =
     Ok [0xC8, 0x83, 0x63, 0x61, 0x74, 0x82, 0x04, 0x00, 0x80] \<and>
   fst (validateDecoding (NewRLP [0xC8, 0x83, 0x63, 0x61, 0x74, 0x82, 0x04, 0x00, 0x80])
          (VSlice [VString [0x63, 0x61, 0x74], VUint 1024, VBigInt 0])) = Ok ()"
proof -
  let ?v = "VSlice [VString [0x63, 0x61, 0x74], VUint 1024, VBigInt 0]"
  let ?bs = "[0xC8, 0x83, 0x63, 0x61, 0x74, 0x82, 0x04, 0x00, 0x80] :: byte list"
  have rec: "recognized ?v"
    by simp
  have enc: "EncodeToRLP ?v = Ok ?bs"
    by code_simp
  from encode_then_decode [OF rec] enc
  have "length ?bs < 2 ^ 64 \<longrightarrow> (\<exists>r'. validateDecoding (NewRLP ?bs) ?v = (Ok (), r') \<and>
                 r_pos r' = of_nat (length ?bs) \<and> r_kind r' = NoKind \<and> r_lists r' = [])"
    by auto
  then have "fst (validateDecoding (NewRLP ?bs) ?v) = Ok ()"
    by auto
  with rec enc show ?thesis
    by (intro conjI)
qed

text \<open>
  C1, the converse direction as the claim states it. The reader accepts \<open>0x81 0x05\<close>
  as a byte string, consuming both bytes, and returns the one-byte string \<open>0x05\<close>,
  whose encoding is the single byte \<open>0x05\<close>: re-encoding the decoded value does not
  give the input back.
\<close>

theorem Bytes_accepts_non_canonical_single_byte:
  "fst (RLP_Bytes (NewRLP [0x81, 0x05])) = Ok [0x05] \<and>
   r_pos (snd (RLP_Bytes (NewRLP [0x81, 0x05]))) = 2 \<and>
   EncodeToRLP (VBytes [0x05]) = Ok [0x05] \<and>
   EncodeToRLP (VBytes [0x05]) \<noteq> Ok [0x81, 0x05]"
  by code_simp

end
